theory Spec2Isabelle
  imports Main
begin

section \<open>Strings and numbers of the source language\<close>

text \<open>
  A source string is modelled as a \<^typ>\<open>string\<close>: the list of the bytes of its UTF-8
  form, for a string that is well-formed Unicode text (one without unpaired surrogates).
  White space is what \<^verbatim>\<open>String.prototype.trim\<close> and the class \<^verbatim>\<open>\s\<close> take for
  it, all 25 characters, each in its UTF-8 form. Case mapping is modelled on the letters
  \<^verbatim>\<open>A-Z\<close> and the Kelvin sign, which are the characters whose lower case is ASCII.

  A source number is modelled as an \<^typ>\<open>int\<close>: the integer-valued numbers. A value that
  \<^verbatim>\<open>Number(...)\<close> turns into \<^verbatim>\<open>NaN\<close> is the constructor \<open>NaN\<close> of the
  input type below. Fractions and infinities are not part of the model, and arithmetic is
  exact, as the source's is on integers below \<open>2^53\<close> in absolute value.
\<close>

datatype number = NaN | Num int

definition white_space :: "string list" where
  \<comment> \<open>U+0009 to U+000D, U+0020, U+00A0, U+1680, U+2000 to U+200A, U+2028, U+2029, U+202F,
      U+205F, U+3000, U+FEFF\<close>
  "white_space =
     [[CHR 0x09], [CHR 0x0A], [CHR 0x0B], [CHR 0x0C], [CHR 0x0D], [CHR 0x20],
      [CHR 0xC2, CHR 0xA0],
      [CHR 0xE1, CHR 0x9A, CHR 0x80],
      [CHR 0xE2, CHR 0x80, CHR 0x80], [CHR 0xE2, CHR 0x80, CHR 0x81],
      [CHR 0xE2, CHR 0x80, CHR 0x82], [CHR 0xE2, CHR 0x80, CHR 0x83],
      [CHR 0xE2, CHR 0x80, CHR 0x84], [CHR 0xE2, CHR 0x80, CHR 0x85],
      [CHR 0xE2, CHR 0x80, CHR 0x86], [CHR 0xE2, CHR 0x80, CHR 0x87],
      [CHR 0xE2, CHR 0x80, CHR 0x88], [CHR 0xE2, CHR 0x80, CHR 0x89],
      [CHR 0xE2, CHR 0x80, CHR 0x8A],
      [CHR 0xE2, CHR 0x80, CHR 0xA8], [CHR 0xE2, CHR 0x80, CHR 0xA9],
      [CHR 0xE2, CHR 0x80, CHR 0xAF],
      [CHR 0xE2, CHR 0x81, CHR 0x9F],
      [CHR 0xE3, CHR 0x80, CHR 0x80],
      [CHR 0xEF, CHR 0xBB, CHR 0xBF]]"

definition match_at :: "string list \<Rightarrow> string \<Rightarrow> nat" where
  \<comment> \<open>the length of the first of the patterns that \<open>s\<close> starts with, 0 when it starts
      with none\<close>
  "match_at pats s =
     (case find (\<lambda>w. take (length w) s = w) pats of None \<Rightarrow> 0 | Some w \<Rightarrow> length w)"

function drop_matches :: "string list \<Rightarrow> string \<Rightarrow> string" where
  \<comment> \<open>\<open>s\<close> without the patterns it starts with\<close>
  "drop_matches pats s =
     (if match_at pats s = 0 then s else drop_matches pats (drop (match_at pats s) s))"
  by pat_completeness auto
termination
proof (relation "measure (\<lambda>(pats, s). length s)")
  show "wf (measure (\<lambda>(pats, s). length s))"
    by simp
next
  fix pats :: "string list" and s :: string
  assume m: "match_at pats s \<noteq> 0"
  have "s \<noteq> []"
  proof
    assume "s = []"
    with m show False
      by (auto simp: match_at_def split: option.splits dest: find_Some_iff [THEN iffD1])
  qed
  with m show "((pats, drop (match_at pats s) s), (pats, s)) \<in> measure (\<lambda>(pats, s). length s)"
    by simp
qed

declare drop_matches.simps [simp del]

definition trimStart :: "string \<Rightarrow> string" where
  "trimStart s = drop_matches white_space s"

definition trimEnd :: "string \<Rightarrow> string" where
  "trimEnd s = rev (drop_matches (map rev white_space) (rev s))"

definition trim :: "string \<Rightarrow> string" where
  \<comment> \<open>\<^verbatim>\<open>String.prototype.trim\<close>: white space is removed at both ends\<close>
  "trim s = trimEnd (trimStart s)"

function replace_ws :: "string \<Rightarrow> string \<Rightarrow> string" where
  \<comment> \<open>\<^verbatim>\<open>s.replace(/\s+/g, r)\<close>: every maximal run of white space becomes \<open>r\<close>\<close>
  "replace_ws r [] = []"
| "replace_ws r (c # cs) =
     (if match_at white_space (c # cs) = 0 then c # replace_ws r cs
      else r @ replace_ws r (drop_matches white_space (c # cs)))"
  by pat_completeness auto
termination
proof (relation "measure (\<lambda>(r, s). length s)")
  show "wf (measure (\<lambda>(r, s). length s))"
    by simp
next
  fix r :: string and c :: char and cs :: string
  show "((r, cs), (r, c # cs)) \<in> measure (\<lambda>(r, s). length s)"
    by simp
next
  fix r :: string and c :: char and cs :: string
  assume m: "match_at white_space (c # cs) \<noteq> 0"
  have le: "length (drop_matches pats s) \<le> length s" for pats s
  proof (induction pats s rule: drop_matches.induct)
    case (1 pats s)
    show ?case
    proof (cases "match_at pats s = 0")
      case True
      then show ?thesis by (simp add: drop_matches.simps [of pats s])
    next
      case False
      from "1" [OF False] have "length (drop_matches pats (drop (match_at pats s) s)) \<le> length s"
        by simp
      with False show ?thesis by (simp add: drop_matches.simps [of pats s])
    qed
  qed
  have "drop_matches white_space (c # cs)
        = drop_matches white_space (drop (match_at white_space (c # cs)) (c # cs))"
    using m by (simp add: drop_matches.simps [of white_space "c # cs"])
  moreover have "length (drop (match_at white_space (c # cs)) (c # cs)) < length (c # cs)"
    using m by simp
  ultimately have "length (drop_matches white_space (c # cs)) < length (c # cs)"
    using le [of white_space "drop (match_at white_space (c # cs)) (c # cs)"] by simp
  then show "((r, drop_matches white_space (c # cs)), (r, c # cs))
             \<in> measure (\<lambda>(r, s). length s)"
    by simp
qed

definition continuation :: "char \<Rightarrow> bool" where
  \<comment> \<open>a byte that continues a UTF-8 form\<close>
  "continuation b = (128 \<le> (of_char b :: nat) \<and> (of_char b :: nat) < 192)"

definition utf8_length :: "char \<Rightarrow> nat" where
  \<comment> \<open>the number of bytes of the UTF-8 form that starts with this byte, 0 when none
      does\<close>
  "utf8_length b =
     (let n = (of_char b :: nat)
      in if n < 128 then 1 else if 194 \<le> n \<and> n < 224 then 2
         else if 224 \<le> n \<and> n < 240 then 3 else if 240 \<le> n \<and> n < 245 then 4 else 0)"

definition utf8_char :: "string \<Rightarrow> bool" where
  \<comment> \<open>the bytes of one character: a first byte, and as many continuation bytes as the first
      byte asks for\<close>
  "utf8_char c = (c \<noteq> [] \<and> length c = utf8_length (hd c) \<and> list_all continuation (tl c))"

definition lower_ascii :: "char \<Rightarrow> char" where
  \<comment> \<open>the letters \<^verbatim>\<open>A-Z\<close> become \<^verbatim>\<open>a-z\<close>\<close>
  "lower_ascii c = (if 65 \<le> (of_char c :: nat) \<and> (of_char c :: nat) \<le> 90
                    then char_of ((of_char c :: nat) + 32) else c)"

fun toLowerCase :: "string \<Rightarrow> string" where
  \<comment> \<open>\<^verbatim>\<open>String.prototype.toLowerCase\<close>, as far as a lookup in a table of ASCII keys can
      tell: the letters \<^verbatim>\<open>A-Z\<close> and the Kelvin sign U+212A (bytes \<open>E2 84 AA\<close>), the one
      other character whose lower case is ASCII; the lower case of any other character
      holds a character that is not ASCII, as the character itself does\<close>
  "toLowerCase (a # b # c # s) =
     (if a = CHR 0xE2 \<and> b = CHR 0x84 \<and> c = CHR 0xAA then CHR ''k'' # toLowerCase s
      else lower_ascii a # toLowerCase (b # c # s))"
| "toLowerCase (a # s) = lower_ascii a # toLowerCase s"
| "toLowerCase [] = []"

definition or_else :: "string option \<Rightarrow> string \<Rightarrow> string" where
  \<comment> \<open>\<^verbatim>\<open>x || d\<close> for a string or \<^verbatim>\<open>undefined\<close> \<open>x\<close>: the empty string is falsy\<close>
  "or_else x d = (case x of None \<Rightarrow> d | Some s \<Rightarrow> if s = [] then d else s)"

definition Number_or_0 :: "number option \<Rightarrow> int" where
  \<comment> \<open>\<^verbatim>\<open>Number(x) || 0\<close>: \<^verbatim>\<open>undefined\<close> and \<^verbatim>\<open>NaN\<close> coerce to \<^verbatim>\<open>NaN\<close>,
      which is falsy, as is 0\<close>
  "Number_or_0 x = (case x of None \<Rightarrow> 0 | Some NaN \<Rightarrow> 0 | Some (Num n) \<Rightarrow> n)"

section \<open>The query\<close>

record QueryObject =
  qo_host :: "string option"
  qo_keyword :: "string option"
  qo_location :: "string option"
  qo_dateSincePosted :: "string option"
  qo_jobType :: "string option"
  qo_remoteFilter :: "string option"
  qo_salary :: "string option"
  qo_experienceLevel :: "string option"
  qo_sortBy :: "string option"
  qo_limit :: "number option"
  qo_page :: "number option"

record Query =
  host :: string
  keyword :: string
  location :: string
  dateSincePosted :: string
  jobType :: string
  remoteFilter :: string
  salary :: string
  experienceLevel :: string
  sortBy :: string
  limit :: int
  page :: int

definition normalize_ws :: "string option \<Rightarrow> string" where
  \<comment> \<open>\<^verbatim>\<open>x?.trim().replace(/\s+/g, "+") || ""\<close>\<close>
  "normalize_ws x = or_else (map_option (\<lambda>s. replace_ws ''+'' (trim s)) x) ''''"

definition Query_constructor :: "QueryObject \<Rightarrow> Query" where
  "Query_constructor queryObj =
     \<lparr> host = or_else (qo_host queryObj) ''www.linkedin.com'',
       keyword = normalize_ws (qo_keyword queryObj),
       location = normalize_ws (qo_location queryObj),
       dateSincePosted = or_else (qo_dateSincePosted queryObj) '''',
       jobType = or_else (qo_jobType queryObj) '''',
       remoteFilter = or_else (qo_remoteFilter queryObj) '''',
       salary = or_else (qo_salary queryObj) '''',
       experienceLevel = or_else (qo_experienceLevel queryObj) '''',
       sortBy = or_else (qo_sortBy queryObj) '''',
       limit = Number_or_0 (qo_limit queryObj),
       page = Number_or_0 (qo_page queryObj) \<rparr>"

definition emptyQueryObject :: QueryObject where
  \<comment> \<open>the object literal \<^verbatim>\<open>{}\<close>: every field absent\<close>
  "emptyQueryObject =
     \<lparr> qo_host = None, qo_keyword = None, qo_location = None, qo_dateSincePosted = None,
       qo_jobType = None, qo_remoteFilter = None, qo_salary = None,
       qo_experienceLevel = None, qo_sortBy = None, qo_limit = None, qo_page = None \<rparr>"

subsection \<open>Filter tables\<close>

text \<open>
  Each table of the source is an object literal, and \<^verbatim>\<open>table[key]\<close> on an object
  literal reads an own property first and an inherited one of \<^verbatim>\<open>Object.prototype\<close>
  otherwise. \<open>Object_prototype\<close> lists the inherited properties, each with the string
  that \<^verbatim>\<open>URLSearchParams.append\<close> converts its value to. Every such value is a
  function or an object, hence truthy, and its string is not empty: the getters below
  return that string, which is empty exactly when the source's value is falsy.
\<close>

definition Object_prototype :: "(string \<times> string) list" where
  "Object_prototype =
     [(''constructor'', ''function Object() { [native code] }''),
      (''__proto__'', ''[object Object]''),
      (''hasOwnProperty'', ''function hasOwnProperty() { [native code] }''),
      (''isPrototypeOf'', ''function isPrototypeOf() { [native code] }''),
      (''propertyIsEnumerable'', ''function propertyIsEnumerable() { [native code] }''),
      (''toLocaleString'', ''function toLocaleString() { [native code] }''),
      (''toString'', ''function toString() { [native code] }''),
      (''valueOf'', ''function valueOf() { [native code] }''),
      (''__defineGetter__'', ''function __defineGetter__() { [native code] }''),
      (''__defineSetter__'', ''function __defineSetter__() { [native code] }''),
      (''__lookupGetter__'', ''function __lookupGetter__() { [native code] }''),
      (''__lookupSetter__'', ''function __lookupSetter__() { [native code] }'')]"

definition property :: "(string \<times> string) list \<Rightarrow> string \<Rightarrow> string option" where
  \<comment> \<open>\<^verbatim>\<open>table[key]\<close>; \<open>None\<close> is \<^verbatim>\<open>undefined\<close>\<close>
  "property table key =
     (case map_of table key of Some v \<Rightarrow> Some v | None \<Rightarrow> map_of Object_prototype key)"

definition dateRange :: "(string \<times> string) list" where
  "dateRange =
     [(''past month'', ''r2592000''), (''past week'', ''r604800''), (''24hr'', ''r86400'')]"

definition experienceRange :: "(string \<times> string) list" where
  "experienceRange =
     [(''internship'', ''1''), (''entry level'', ''2''), (''associate'', ''3''),
      (''senior'', ''4''), (''director'', ''5''), (''executive'', ''6'')]"

definition jobTypeRange :: "(string \<times> string) list" where
  "jobTypeRange =
     [(''full time'', ''F''), (''full-time'', ''F''), (''part time'', ''P''),
      (''part-time'', ''P''), (''contract'', ''C''), (''temporary'', ''T''),
      (''volunteer'', ''V''), (''internship'', ''I'')]"

definition remoteFilterRange :: "(string \<times> string) list" where
  "remoteFilterRange =
     [(''on-site'', ''1''), (''on site'', ''1''), (''remote'', ''2''), (''hybrid'', ''3'')]"

definition salaryRange :: "(string \<times> string) list" where
  "salaryRange =
     [(''40000'', ''1''), (''60000'', ''2''), (''80000'', ''3''), (''100000'', ''4''),
      (''120000'', ''5'')]"

definition getDateSincePosted :: "Query \<Rightarrow> string" where
  "getDateSincePosted q = or_else (property dateRange (toLowerCase (dateSincePosted q))) []"

definition getExperienceLevel :: "Query \<Rightarrow> string" where
  "getExperienceLevel q =
     or_else (property experienceRange (toLowerCase (experienceLevel q))) []"

definition getJobType :: "Query \<Rightarrow> string" where
  "getJobType q = or_else (property jobTypeRange (toLowerCase (jobType q))) []"

definition getRemoteFilter :: "Query \<Rightarrow> string" where
  "getRemoteFilter q = or_else (property remoteFilterRange (toLowerCase (remoteFilter q))) []"

definition getSalary :: "Query \<Rightarrow> string" where
  "getSalary q = or_else (property salaryRange (salary q)) []"

definition getPage :: "Query \<Rightarrow> int" where
  \<comment> \<open>\<^verbatim>\<open>this.page * 25\<close>; the product of the source is a double, and is this one while
      it is below \<open>2^53\<close> in absolute value\<close>
  "getPage q = page q * 25"

subsection \<open>The request URL\<close>

definition digit_char :: "nat \<Rightarrow> char" where
  "digit_char n = char_of (48 + n)"

fun digits :: "nat \<Rightarrow> string" where
  "digits n = (if n < 10 then [digit_char n] else digits (n div 10) @ [digit_char (n mod 10)])"

declare digits.simps [simp del]

definition Number_toString :: "int \<Rightarrow> string" where
  \<comment> \<open>\<^verbatim>\<open>Number.prototype.toString\<close> on an integer below \<open>2^53\<close> in absolute value:
      the source's numbers are doubles, which hold every such integer, and are written
      with an exponent only from \<open>10^21\<close> on\<close>
  "Number_toString i = (if i < 0 then CHR ''-'' # digits (nat (- i)) else digits (nat i))"

definition unreserved :: "char \<Rightarrow> bool" where
  \<comment> \<open>the bytes that the \<^verbatim>\<open>application/x-www-form-urlencoded\<close> serializer leaves as
      they are: ASCII letters and digits and \<^verbatim>\<open>* - . _\<close>\<close>
  "unreserved c =
     (let n = (of_char c :: nat)
      in (48 \<le> n \<and> n \<le> 57) \<or> (65 \<le> n \<and> n \<le> 90) \<or> (97 \<le> n \<and> n \<le> 122)
         \<or> n = 42 \<or> n = 45 \<or> n = 46 \<or> n = 95)"

definition hex_digit :: "nat \<Rightarrow> char" where
  "hex_digit n = (if n < 10 then char_of (48 + n) else char_of (55 + n))"

definition encode_byte :: "char \<Rightarrow> string" where
  "encode_byte c =
     (if unreserved c then [c]
      else if c = CHR '' '' then [CHR ''+'']
      else [CHR ''%'', hex_digit ((of_char c :: nat) div 16), hex_digit ((of_char c :: nat) mod 16)])"

definition urlencode :: "string \<Rightarrow> string" where
  "urlencode s = concat (map encode_byte s)"

type_synonym URLSearchParams = "(string \<times> string) list"

definition append_param :: "URLSearchParams \<Rightarrow> string \<Rightarrow> string \<Rightarrow> URLSearchParams" where
  "append_param params name val = params @ [(name, val)]"

fun join_amp :: "string list \<Rightarrow> string" where
  "join_amp [] = []"
| "join_amp [x] = x"
| "join_amp (x # y # ys) = x @ CHR ''&'' # join_amp (y # ys)"

definition URLSearchParams_toString :: "URLSearchParams \<Rightarrow> string" where
  "URLSearchParams_toString params =
     join_amp (map (\<lambda>(name, val). urlencode name @ CHR ''='' # urlencode val) params)"

definition url :: "Query \<Rightarrow> int \<Rightarrow> string" where
  "url q start =
     (let query = ''https://'' @ host q @ ''/jobs-guest/jobs/api/seeMoreJobPostings/search?'';
          params = [];
          params = (if keyword q \<noteq> [] then append_param params ''keywords'' (keyword q) else params);
          params = (if location q \<noteq> [] then append_param params ''location'' (location q) else params);
          params = (if getDateSincePosted q \<noteq> []
                    then append_param params ''f_TPR'' (getDateSincePosted q) else params);
          params = (if getSalary q \<noteq> [] then append_param params ''f_SB2'' (getSalary q) else params);
          params = (if getExperienceLevel q \<noteq> []
                    then append_param params ''f_E'' (getExperienceLevel q) else params);
          params = (if getRemoteFilter q \<noteq> []
                    then append_param params ''f_WT'' (getRemoteFilter q) else params);
          params = (if getJobType q \<noteq> [] then append_param params ''f_JT'' (getJobType q) else params);
          params = append_param params ''start'' (Number_toString (start + getPage q));
          params = (if sortBy q = ''recent'' then append_param params ''sortBy'' ''DD''
                    else if sortBy q = ''relevant'' then append_param params ''sortBy'' ''R''
                    else params)
      in query @ URLSearchParams_toString params)"

section \<open>The record extractor\<close>

record JobData =
  position :: string
  company :: string
  job_location :: string
  date :: "string option"
  job_salary :: string
  jobUrl :: string
  companyLogo :: string
  agoTime :: string

datatype error = RateLimitReached | HttpStatus nat | NetworkError | ParseError

text \<open>
  The markup library is not part of the repository. Its part in \<open>parseJobList\<close> is a
  parameter: \<open>load jobData\<close> stands for \<^verbatim>\<open>cheerio.load(jobData)\<close> followed by
  \<^verbatim>\<open>$("li")\<close>, and is \<open>Inl\<close> when that throws. Each \<^verbatim>\<open>li\<close> element is given by
  what the selectors of the callback read from it (\<^verbatim>\<open>text()\<close> of an empty selection is
  the empty string, \<^verbatim>\<open>attr\<close> of one is \<^verbatim>\<open>undefined\<close>), or is \<open>Throws\<close> when
  reading it throws.
\<close>

record Element =
  title_text :: string
  subtitle_text :: string
  location_text :: string
  time_datetime :: "string option"
  salary_info_text :: string
  full_link_href :: "string option"
  image_delayed_url :: "string option"
  listdate_text :: string

datatype Candidate = Throws | Li Element

type_synonym Cheerio = "string \<Rightarrow> error + Candidate list"

definition try_extract :: "Candidate \<Rightarrow> error + JobData option" where
  \<comment> \<open>the \<^verbatim>\<open>try\<close> block of the callback; \<open>None\<close> is \<^verbatim>\<open>null\<close>\<close>
  "try_extract c =
     (case c of
        Throws \<Rightarrow> Inl ParseError
      | Li job \<Rightarrow>
          (let position = trim (title_text job);
               company = trim (subtitle_text job);
               location = trim (location_text job);
               date = time_datetime job;
               salary = replace_ws [CHR '' ''] (trim (salary_info_text job));
               jobUrl = full_link_href job;
               companyLogo = image_delayed_url job;
               agoTime = trim (listdate_text job)
           in if position = [] \<or> company = [] then Inr None
              else Inr (Some \<lparr> position = position, company = company,
                     job_location = location, date = date,
                     job_salary = or_else (Some salary) ''Not specified'',
                     jobUrl = or_else jobUrl [],
                     companyLogo = or_else companyLogo [],
                     agoTime = or_else (Some agoTime) [] \<rparr>)))"

definition callback :: "Candidate \<Rightarrow> JobData option" where
  \<comment> \<open>the callback of \<^verbatim>\<open>.map\<close>: its \<^verbatim>\<open>catch\<close> returns \<^verbatim>\<open>null\<close>\<close>
  "callback c = (case try_extract c of Inl err \<Rightarrow> None | Inr r \<Rightarrow> r)"

definition parseJobList :: "Cheerio \<Rightarrow> string \<Rightarrow> error + JobData list" where
  \<comment> \<open>\<^verbatim>\<open>.map\<close> leaves out the elements whose callback returns \<^verbatim>\<open>null\<close>, and the
      \<^verbatim>\<open>filter\<close> after \<^verbatim>\<open>.get()\<close> does so again; the outer \<^verbatim>\<open>catch\<close> returns
      the empty array\<close>
  "parseJobList load jobData =
     (case load jobData of
        Inl err \<Rightarrow> Inr []
      | Inr jobs \<Rightarrow> Inr (List.map_filter callback jobs))"

section \<open>The cache\<close>

record CacheItem =
  data :: "JobData list"
  timestamp :: int

text \<open>
  The \<^verbatim>\<open>Map\<close> of the cache is the list of its entries in insertion order.
  \<^verbatim>\<open>Map.set\<close> replaces the value of a key that is present, in place, and adds a new key
  at the end; the keys of a \<^verbatim>\<open>Map\<close> are distinct. \<^verbatim>\<open>Date.now()\<close> is a
  parameter \<open>now\<close> of every operation that reads the clock.
\<close>

type_synonym JobCache = "(string \<times> CacheItem) list"

fun Map_set :: "string \<Rightarrow> CacheItem \<Rightarrow> JobCache \<Rightarrow> JobCache" where
  "Map_set k v [] = [(k, v)]"
| "Map_set k v ((a, b) # ps) = (if a = k then (k, v) # ps else (a, b) # Map_set k v ps)"

fun Map_delete :: "string \<Rightarrow> JobCache \<Rightarrow> JobCache" where
  "Map_delete k [] = []"
| "Map_delete k ((a, b) # ps) = (if a = k then ps else (a, b) # Map_delete k ps)"

definition TTL :: int where
  "TTL = 1000 * 60 * 60"

definition JobCache_constructor :: JobCache where
  "JobCache_constructor = []"

definition JobCache_set :: "JobCache \<Rightarrow> int \<Rightarrow> string \<Rightarrow> JobData list \<Rightarrow> JobCache" where
  "JobCache_set cache now key val = Map_set key \<lparr> data = val, timestamp = now \<rparr> cache"

definition JobCache_get :: "JobCache \<Rightarrow> int \<Rightarrow> string \<Rightarrow> JobData list option \<times> JobCache" where
  \<comment> \<open>the value returned (\<open>None\<close> is \<^verbatim>\<open>null\<close>) and the cache afterwards\<close>
  "JobCache_get cache now key =
     (case map_of cache key of
        None \<Rightarrow> (None, cache)
      | Some item \<Rightarrow>
          if now - timestamp item > TTL then (None, Map_delete key cache)
          else (Some (data item), cache))"

definition JobCache_clear :: "JobCache \<Rightarrow> int \<Rightarrow> JobCache" where
  "JobCache_clear cache now =
     fold (\<lambda>(key, val) c. if now - timestamp val > TTL then Map_delete key c else c)
       cache cache"

definition getCacheSize :: "JobCache \<Rightarrow> nat" where
  "getCacheSize cache = length cache"

section \<open>Fetching and the pagination loop\<close>

text \<open>
  The network is a parameter. One request is answered by a function from the requested
  URL to a response with its status and body, or to no response at all (a network error or
  the timeout). A run of \<open>getJobs\<close> takes the list of these answers, one for each successive
  request. The request headers have no part in any result and are left out.
\<close>

datatype HttpResult = Response nat string | NoResponse

type_synonym Http = "string \<Rightarrow> HttpResult"

definition fetchJobBatch :: "Cheerio \<Rightarrow> Query \<Rightarrow> Http \<Rightarrow> int \<Rightarrow> error + JobData list" where
  \<comment> \<open>\<^verbatim>\<open>validateStatus\<close> accepts status 200 only\<close>
  "fetchJobBatch load q http start =
     (case http (url q start) of
        Response status body \<Rightarrow>
          if status = 200 then parseJobList load body
          else if status = 429 then Inl RateLimitReached
          else Inl (HttpStatus status)
      | NoResponse \<Rightarrow> Inl NetworkError)"

text \<open>
  What a run does besides returning is a list of events: each call of \<open>fetchJobBatch\<close>
  with its offset and its outcome, each line written to the console, and each wait. The
  pause between two pages is \<^verbatim>\<open>2000 + Math.random() * 1000\<close> milliseconds; its random
  length is not modelled.
\<close>

datatype Event =
    FetchJobBatch int "error + JobData list"
  | LogFetched nat nat
  | LogError nat error
  | LogMaxErrors
  | LogCached
  | Backoff nat
  | Pause

record LoopState =
  allJobs :: "JobData list"
  start :: int
  consecutiveErrors :: nat

datatype Step = Continue LoopState | Break "JobData list"

definition BATCH_SIZE :: int where
  "BATCH_SIZE = 25"

definition MAX_CONSECUTIVE_ERRORS :: nat where
  "MAX_CONSECUTIVE_ERRORS = 3"

definition slice0 :: "'a list \<Rightarrow> int \<Rightarrow> 'a list" where
  \<comment> \<open>\<^verbatim>\<open>xs.slice(0, n)\<close>: a negative \<open>n\<close> counts from the end\<close>
  "slice0 xs n = (if n < 0 then take (nat (int (length xs) + n)) xs else take (nat n) xs)"

definition loop_body :: "Cheerio \<Rightarrow> Query \<Rightarrow> Http \<Rightarrow> LoopState \<Rightarrow> Step \<times> Event list" where
  \<comment> \<open>one pass through the body of \<^verbatim>\<open>while (hasMore)\<close>; \<open>Break\<close> carries \<open>allJobs\<close> as
      it is when the loop is left\<close>
  "loop_body load q http st =
     (let outcome = fetchJobBatch load q http (start st)
      in case outcome of
           Inr jobs \<Rightarrow>
             if jobs = [] then (Break (allJobs st), [FetchJobBatch (start st) outcome])
             else
               (let all = allJobs st @ jobs;
                    log = LogFetched (length jobs) (length all)
                in if limit q \<noteq> 0 \<and> int (length all) \<ge> limit q
                   then (Break (slice0 all (limit q)), [FetchJobBatch (start st) outcome, log])
                   else (Continue \<lparr> allJobs = all, start = start st + BATCH_SIZE,
                                    consecutiveErrors = 0 \<rparr>,
                         [FetchJobBatch (start st) outcome, log, Pause]))
         | Inl err \<Rightarrow>
             (let n = consecutiveErrors st + 1
              in if n \<ge> MAX_CONSECUTIVE_ERRORS
                 then (Break (allJobs st),
                       [FetchJobBatch (start st) outcome, LogError n err, LogMaxErrors])
                 else (Continue (st\<lparr> consecutiveErrors := n \<rparr>),
                       [FetchJobBatch (start st) outcome, LogError n err,
                        Backoff (2 ^ n * 1000)])))"

fun while_hasMore ::
  "Cheerio \<Rightarrow> Query \<Rightarrow> Http list \<Rightarrow> LoopState \<Rightarrow> (JobData list \<times> Event list) option" where
  "while_hasMore load q [] st = None"
| "while_hasMore load q (http # net) st =
     (case loop_body load q http st of
        (Break jobs, evs) \<Rightarrow> Some (jobs, evs)
      | (Continue st', evs) \<Rightarrow>
          (case while_hasMore load q net st' of
             None \<Rightarrow> None
           | Some (jobs, evs') \<Rightarrow> Some (jobs, evs @ evs')))"

text \<open>
  \<open>while_hasMore\<close> is the loop, running on the answers of the network in turn. It is
  \<open>None\<close> when the loop has not ended by the time the list of answers has: the loop of the
  source goes on for as long as pages are not empty, the limit is not reached and fewer
  than three fetches in a row fail.
\<close>

record Outcome =
  returned :: "error + JobData list"
  cache_after :: JobCache
  events :: "Event list"

definition getJobs ::
  "Cheerio \<Rightarrow> Query \<Rightarrow> int \<Rightarrow> int \<Rightarrow> Http list \<Rightarrow> JobCache \<Rightarrow> Outcome option" where
  \<comment> \<open>\<open>now\<close> is the clock at the cache check, \<open>now'\<close> the clock when the results are
      cached. No statement of the outer \<^verbatim>\<open>try\<close> throws outside the loop body, whose
      own \<^verbatim>\<open>catch\<close> takes every error of a fetch.\<close>
  "getJobs load q now now' net cache =
     (let cacheKey = url q 0;
          (cachedJobs, cache1) = JobCache_get cache now cacheKey
      in case cachedJobs of
           Some jobs \<Rightarrow> Some \<lparr> returned = Inr jobs, cache_after = cache1, events = [LogCached] \<rparr>
         | None \<Rightarrow>
             (case while_hasMore load q net \<lparr> allJobs = [], start = 0, consecutiveErrors = 0 \<rparr> of
                None \<Rightarrow> None
              | Some (jobs, evs) \<Rightarrow>
                  Some \<lparr> returned = Inr jobs,
                         cache_after = (if jobs \<noteq> [] then JobCache_set cache1 now' (url q 0) jobs
                                        else cache1),
                         events = evs \<rparr>))"

fun fetched :: "Event list \<Rightarrow> JobData list" where
  \<comment> \<open>the records of the pages that the calls of \<open>fetchJobBatch\<close> in a run returned, in
      the order of the calls\<close>
  "fetched [] = []"
| "fetched (FetchJobBatch s (Inr jobs) # evs) = jobs @ fetched evs"
| "fetched (ev # evs) = fetched evs"

subsection \<open>A small server for examples\<close>

definition li :: "string \<Rightarrow> string \<Rightarrow> Candidate" where
  \<comment> \<open>an element with a title and a subtitle and nothing else\<close>
  "li title subtitle =
     Li \<lparr> title_text = title, subtitle_text = subtitle, location_text = [],
          time_datetime = None, salary_info_text = [], full_link_href = None,
          image_delayed_url = None, listdate_text = [] \<rparr>"

definition job :: "string \<Rightarrow> string \<Rightarrow> JobData" where
  \<comment> \<open>the record that \<open>parseJobList\<close> makes of \<open>li title subtitle\<close> when neither has white
      space at its ends\<close>
  "job title subtitle =
     \<lparr> position = title, company = subtitle, job_location = [], date = None,
       job_salary = ''Not specified'', jobUrl = [], companyLogo = [], agoTime = [] \<rparr>"

definition two_pages :: Cheerio where
  \<comment> \<open>the markup library on a server whose bodies are \<open>A\<close>, \<open>B\<close> and the empty page\<close>
  "two_pages body =
     (if body = ''A'' then Inr [li ''a1'' ''c'', li ''a2'' ''c'']
      else if body = ''B'' then Inr [li ''b1'' ''c'', li ''b2'' ''c'']
      else Inr [])"

definition nurse :: QueryObject where
  "nurse = emptyQueryObject \<lparr> qo_keyword := Some ''nurse'' \<rparr>"

section \<open>Normalisation of keyword and location\<close>

section \<open>Normalisation of keyword and location\<close>

lemma match_at_found:
  "match_at pats s \<noteq> 0 \<Longrightarrow>
   \<exists>w \<in> set pats. take (length w) s = w \<and> match_at pats s = length w"
proof -
  assume m: "match_at pats s \<noteq> 0"
  then obtain w where f: "find (\<lambda>w. take (length w) s = w) pats = Some w"
    by (auto simp: match_at_def split: option.splits)
  then have "w \<in> set pats" "take (length w) s = w"
    by (auto simp: find_Some_iff)
  with f show ?thesis
    by (auto simp: match_at_def)
qed

lemma match_at_none:
  "(\<And>w. w \<in> set pats \<Longrightarrow> take (length w) s \<noteq> w) \<Longrightarrow> match_at pats s = 0"
  by (simp add: match_at_def find_None_iff [THEN iffD2])

lemma match_at_unique:
  assumes c: "c \<in> set pats" "take (length c) s = c"
    and u: "\<And>w. w \<in> set pats \<Longrightarrow> take (length w) s = w \<Longrightarrow> w = c"
  shows "match_at pats s = length c"
proof -
  have "find (\<lambda>w. take (length w) s = w) pats \<noteq> None"
    using c by (auto simp: find_None_iff)
  then obtain w where f: "find (\<lambda>w. take (length w) s = w) pats = Some w"
    by auto
  then have "w \<in> set pats" "take (length w) s = w"
    by (auto simp: find_Some_iff)
  then have "w = c" by (rule u)
  with f show ?thesis by (simp add: match_at_def)
qed

lemma white_space_utf8: "w \<in> set white_space \<Longrightarrow> utf8_char w"
proof -
  have "list_all utf8_char white_space"
    by code_simp
  then show "w \<in> set white_space \<Longrightarrow> utf8_char w"
    by (simp add: list_all_iff)
qed

lemma utf8_char_hd: "utf8_char c \<Longrightarrow> c \<noteq> [] \<and> \<not> continuation (hd c)"
  by (auto simp: utf8_char_def utf8_length_def continuation_def Let_def split: if_splits)

lemma utf8_prefix_unique:
  assumes a: "utf8_char a" and b: "utf8_char b" and t: "take (length a) (b @ rest) = a"
  shows "a = b"
proof -
  from a b obtain x xs y ys where ab: "a = x # xs" "b = y # ys"
    by (cases a; cases b) (auto simp: utf8_char_def)
  with t have "x = y" by simp
  with a b ab have "length a = length b"
    by (simp add: utf8_char_def)
  with t show ?thesis by simp
qed

lemma utf8_suffix_unique:
  assumes a: "utf8_char a" and b: "utf8_char b" and t: "take (length a) (rev b @ rest) = rev a"
  shows "a = b"
proof (cases "length a \<le> length b")
  case True
  with t have "take (length a) (rev b) = rev a"
    by simp
  then have "rev b = rev a @ drop (length a) (rev b)"
    by (metis append_take_drop_id)
  then have "b = rev (drop (length a) (rev b)) @ a"
    by (metis rev_append rev_rev_ident)
  then obtain p where p: "b = p @ a" ..
  show ?thesis
  proof (cases p)
    case Nil
    with p show ?thesis by simp
  next
    case (Cons x xs)
    from a have "a \<noteq> []" by (simp add: utf8_char_def)
    with p Cons have "hd a \<in> set (tl b)" by (cases a) auto
    with b have "continuation (hd a)"
      by (simp add: utf8_char_def list_all_iff)
    with utf8_char_hd [OF a] show ?thesis by simp
  qed
next
  case False
  then have l: "length b < length a" by simp
  from t have "take (length b) (take (length a) (rev b @ rest)) = take (length b) (rev a)"
    by simp
  with l have "rev b = take (length b) (rev a)"
    by (simp add: min_def)
  then have "rev a = rev b @ drop (length b) (rev a)"
    by (metis append_take_drop_id)
  then have "a = rev (drop (length b) (rev a)) @ b"
    by (metis rev_append rev_rev_ident)
  then obtain p where p: "a = p @ b" ..
  from l p have "p \<noteq> []" by auto
  from b have "b \<noteq> []" by (simp add: utf8_char_def)
  with p \<open>p \<noteq> []\<close> have "hd b \<in> set (tl a)" by (cases p; cases b) auto
  with a have "continuation (hd b)"
    by (simp add: utf8_char_def list_all_iff)
  with utf8_char_hd [OF b] show ?thesis by simp
qed

lemma match_at_char:
  assumes "utf8_char c"
  shows "match_at white_space (c @ rest) = (if c \<in> set white_space then length c else 0)"
proof (cases "c \<in> set white_space")
  case True
  have "match_at white_space (c @ rest) = length c"
  proof (rule match_at_unique [OF True])
    show "take (length c) (c @ rest) = c" by simp
  next
    fix w assume "w \<in> set white_space" "take (length w) (c @ rest) = w"
    then show "w = c"
      using utf8_prefix_unique [OF white_space_utf8 assms] by blast
  qed
  with True show ?thesis by simp
next
  case False
  have "match_at white_space (c @ rest) = 0"
  proof (rule match_at_none)
    fix w assume w: "w \<in> set white_space"
    show "take (length w) (c @ rest) \<noteq> w"
    proof
      assume "take (length w) (c @ rest) = w"
      from utf8_prefix_unique [OF white_space_utf8 [OF w] assms this] w False
      show False by simp
    qed
  qed
  with False show ?thesis by simp
qed

lemma match_at_rev_char:
  assumes "utf8_char c"
  shows "match_at (map rev white_space) (rev c @ rest)
         = (if c \<in> set white_space then length c else 0)"
proof (cases "c \<in> set white_space")
  case True
  have "match_at (map rev white_space) (rev c @ rest) = length (rev c)"
  proof (rule match_at_unique)
    show "rev c \<in> set (map rev white_space)" using True by simp
  next
    show "take (length (rev c)) (rev c @ rest) = rev c" by simp
  next
    fix w assume "w \<in> set (map rev white_space)" "take (length w) (rev c @ rest) = w"
    then obtain u where u: "u \<in> set white_space" "w = rev u"
      "take (length u) (rev c @ rest) = rev u"
      by auto
    from utf8_suffix_unique [OF white_space_utf8 [OF u(1)] assms u(3)] u(2)
    show "w = rev c" by simp
  qed
  with True show ?thesis by simp
next
  case False
  have "match_at (map rev white_space) (rev c @ rest) = 0"
  proof (rule match_at_none)
    fix w assume "w \<in> set (map rev white_space)"
    then obtain u where u: "u \<in> set white_space" "w = rev u"
      by auto
    show "take (length w) (rev c @ rest) \<noteq> w"
    proof
      assume "take (length w) (rev c @ rest) = w"
      with u have "take (length u) (rev c @ rest) = rev u" by simp
      from utf8_suffix_unique [OF white_space_utf8 [OF u(1)] assms this] u(1) False
      show False by simp
    qed
  qed
  with False show ?thesis by simp
qed

lemma match_at_continuation:
  assumes "continuation b"
  shows "match_at white_space (b # rest) = 0"
proof (rule match_at_none)
  fix w assume w: "w \<in> set white_space"
  show "take (length w) (b # rest) \<noteq> w"
  proof
    assume t: "take (length w) (b # rest) = w"
    from utf8_char_hd [OF white_space_utf8 [OF w]] have "w \<noteq> []" "\<not> continuation (hd w)"
      by simp_all
    moreover from t \<open>w \<noteq> []\<close> have "hd w = b"
      by (cases w) auto
    ultimately show False using assms by simp
  qed
qed

lemma drop_matches_chars:
  assumes "\<And>c rest. c \<in> set g \<Longrightarrow> c \<noteq> [] \<and> match_at pats (c @ rest) = length c"
    and "match_at pats rest = 0"
  shows "drop_matches pats (concat g @ rest) = rest"
  using assms(1)
proof (induction g)
  case Nil
  show ?case
    using assms(2) by (simp add: drop_matches.simps [of pats rest])
next
  case (Cons c g)
  have c: "c \<noteq> []" "match_at pats (c @ concat g @ rest) = length c"
    using Cons.prems [of c "concat g @ rest"] by simp_all
  have "drop_matches pats (concat (c # g) @ rest)
        = drop_matches pats (drop (length c) (c @ concat g @ rest))"
    using c by (simp add: drop_matches.simps [of pats "c @ concat g @ rest"])
  also have "\<dots> = drop_matches pats (concat g @ rest)"
    by simp
  also have "\<dots> = rest"
    using Cons.prems by (intro Cons.IH) simp
  finally show ?case .
qed

lemma trim_strip:
  assumes ls: "set ls \<subseteq> set white_space" and ts: "set ts \<subseteq> set white_space"
    and cs: "cs \<noteq> []" "\<And>c. c \<in> set cs \<Longrightarrow> utf8_char c"
    and ends: "hd cs \<notin> set white_space" "last cs \<notin> set white_space"
  shows "trim (concat ls @ concat cs @ concat ts) = concat cs"
proof -
  have first: "match_at white_space (concat cs @ rest) = 0" for rest
  proof -
    from cs(1) have "concat cs @ rest = hd cs @ (concat (tl cs) @ rest)"
      by (cases cs) simp_all
    then show ?thesis
      using match_at_char [OF cs(2), of "hd cs"] cs(1) ends(1) by simp
  qed
  have "drop_matches white_space (concat ls @ (concat cs @ concat ts)) = concat cs @ concat ts"
  proof (rule drop_matches_chars [OF _ first])
    fix c rest assume "c \<in> set ls"
    with ls have c: "c \<in> set white_space" by auto
    from match_at_char [OF white_space_utf8 [OF c], of rest] c utf8_char_hd [OF white_space_utf8 [OF c]]
    show "c \<noteq> [] \<and> match_at white_space (c @ rest) = length c" by simp
  qed
  then have start: "trimStart (concat ls @ concat cs @ concat ts) = concat cs @ concat ts"
    by (simp add: trimStart_def)
  have last: "match_at (map rev white_space) (rev (concat cs)) = 0"
  proof -
    from cs(1) have "concat cs = concat (butlast cs) @ last cs"
      by (metis append_butlast_last_id concat_append concat.simps(1,2) append_Nil2)
    then have "rev (concat cs) = rev (last cs) @ rev (concat (butlast cs))"
      by (metis rev_append)
    then show ?thesis
      using match_at_rev_char [OF cs(2), of "last cs"] cs(1) ends(2) by simp
  qed
  have "rev (concat cs @ concat ts) = concat (map rev (rev ts)) @ rev (concat cs)"
    by (simp add: rev_concat)
  moreover have "drop_matches (map rev white_space) (concat (map rev (rev ts)) @ rev (concat cs))
        = rev (concat cs)"
  proof (rule drop_matches_chars [OF _ last])
    fix c' rest assume "c' \<in> set (map rev (rev ts))"
    with ts obtain c where c: "c \<in> set white_space" "c' = rev c" by auto
    from match_at_rev_char [OF white_space_utf8 [OF c(1)], of rest] c
      utf8_char_hd [OF white_space_utf8 [OF c(1)]]
    show "c' \<noteq> [] \<and> match_at (map rev white_space) (c' @ rest) = length c'" by simp
  qed
  ultimately have "trimEnd (concat cs @ concat ts) = concat cs"
    by (simp add: trimEnd_def)
  with start show ?thesis
    by (simp add: trim_def)
qed

lemma replace_ws_continuation:
  "list_all continuation bs \<Longrightarrow> replace_ws r (bs @ rest) = bs @ replace_ws r rest"
  by (induction bs) (simp_all add: match_at_continuation)

lemma replace_ws_letter:
  assumes "utf8_char c" "c \<notin> set white_space"
  shows "replace_ws r (c @ rest) = c @ replace_ws r rest"
proof -
  from assms(1) obtain a bs where c: "c = a # bs" "list_all continuation bs"
    by (cases c) (auto simp: utf8_char_def)
  have "match_at white_space (a # bs @ rest) = 0"
    using match_at_char [OF assms(1), of rest] assms(2) c(1) by simp
  then show ?thesis
    by (simp add: c replace_ws_continuation)
qed

lemma replace_ws_word:
  "(\<And>c. c \<in> set v \<Longrightarrow> utf8_char c \<and> c \<notin> set white_space) \<Longrightarrow>
   replace_ws r (concat v @ rest) = concat v @ replace_ws r rest"
  by (induction v) (simp_all add: replace_ws_letter)

lemma replace_ws_gap:
  assumes g: "g \<noteq> []" "set g \<subseteq> set white_space" and rest: "match_at white_space rest = 0"
  shows "replace_ws r (concat g @ rest) = r @ replace_ws r rest"
proof -
  have chars: "c \<noteq> [] \<and> match_at white_space (c @ x) = length c" if "c \<in> set g" for c x
  proof -
    from that g(2) have c: "c \<in> set white_space" by auto
    from match_at_char [OF white_space_utf8 [OF c], of x] c utf8_char_hd [OF white_space_utf8 [OF c]]
    show ?thesis by simp
  qed
  from g(1) obtain c g' where gc: "g = c # g'" by (cases g) auto
  from chars [of c "concat g' @ rest"] gc obtain a bs where
    c: "c = a # bs" and m: "match_at white_space (a # bs @ concat g' @ rest) \<noteq> 0"
    by (cases c) auto
  have "replace_ws r (concat g @ rest)
        = r @ replace_ws r (drop_matches white_space (concat g @ rest))"
    using m by (simp add: gc c)
  also have "drop_matches white_space (concat g @ rest) = rest"
    by (rule drop_matches_chars [OF chars rest])
  finally show ?thesis .
qed

lemma match_at_word:
  assumes "v \<noteq> []" "\<And>c. c \<in> set v \<Longrightarrow> utf8_char c \<and> c \<notin> set white_space"
  shows "match_at white_space (concat v @ rest) = 0"
proof -
  from assms(1) obtain c v' where v: "v = c # v'" by (cases v) auto
  with assms(2) [of c] have "utf8_char c" "c \<notin> set white_space" by simp_all
  then show ?thesis
    using match_at_char [of c "concat v' @ rest"] by (simp add: v)
qed

lemma replace_ws_words:
  assumes "\<And>c. c \<in> set w \<Longrightarrow> utf8_char c \<and> c \<notin> set white_space"
    and "\<forall>(g, v) \<in> set rest. g \<noteq> [] \<and> set g \<subseteq> set white_space \<and> v \<noteq> [] \<and>
           (\<forall>c \<in> set v. utf8_char c \<and> c \<notin> set white_space)"
  shows "replace_ws r (concat w @ concat (map (\<lambda>(g, v). concat g @ concat v) rest))
         = concat w @ concat (map (\<lambda>(g, v). r @ concat v) rest)"
  using assms
proof (induction rest arbitrary: w)
  case Nil
  then show ?case
    using replace_ws_word [of w r "[]"] by simp
next
  case (Cons p rest)
  obtain g v where p: "p = (g, v)" by (cases p)
  from Cons.prems(2) p have g: "g \<noteq> []" "set g \<subseteq> set white_space"
    and v: "v \<noteq> []" "\<And>c. c \<in> set v \<Longrightarrow> utf8_char c \<and> c \<notin> set white_space"
    by auto
  let ?tail = "concat (map (\<lambda>(g, v). concat g @ concat v) rest)"
  have "replace_ws r (concat w @ concat g @ concat v @ ?tail)
        = concat w @ replace_ws r (concat g @ concat v @ ?tail)"
    by (rule replace_ws_word [OF Cons.prems(1)])
  also have "replace_ws r (concat g @ concat v @ ?tail) = r @ replace_ws r (concat v @ ?tail)"
    by (rule replace_ws_gap [OF g match_at_word [OF v]])
  also have "replace_ws r (concat v @ ?tail)
             = concat v @ concat (map (\<lambda>(g, v). r @ concat v) rest)"
    using Cons.prems(2) by (intro Cons.IH v(2)) simp_all
  finally show ?case by (simp add: p)
qed

lemma replace_ws_continuation_prefix:
  "list_all continuation u \<Longrightarrow> take (length u) (replace_ws ''+'' cs) = u \<Longrightarrow>
   take (length u) cs = u"
proof (induction u arbitrary: cs)
  case Nil
  then show ?case by simp
next
  case (Cons b u)
  from Cons.prems(2) obtain d ds where cs: "cs = d # ds"
    by (cases cs) auto
  have plus: "\<not> continuation (CHR ''+'')"
    by (simp add: continuation_def)
  show ?case
  proof (cases "match_at white_space (d # ds) = 0")
    case True
    with Cons.prems cs have "b = d" "take (length u) (replace_ws ''+'' ds) = u"
      by simp_all
    with Cons.IH [of ds] Cons.prems(1) cs show ?thesis by simp
  next
    case False
    with Cons.prems(2) cs have "b = CHR ''+''" by simp
    with Cons.prems(1) plus show ?thesis by simp
  qed
qed

lemma match_at_plus: "match_at white_space (CHR ''+'' # x) = 0"
proof -
  have "utf8_char ''+''" "''+'' \<notin> set white_space"
    by code_simp+
  from match_at_char [OF this(1), of x] this(2) show ?thesis by simp
qed

lemma replace_ws_no_space:
  "r = ''+'' \<Longrightarrow> i < length (replace_ws r s) \<Longrightarrow>
   match_at white_space (drop i (replace_ws r s)) = 0"
proof (induction r s arbitrary: i rule: replace_ws.induct)
  case (1 r)
  then show ?case by simp
next
  case (2 r c cs)
  show ?case
  proof (cases "match_at white_space (c # cs) = 0")
    case m: True
    then have out: "replace_ws r (c # cs) = c # replace_ws r cs" by simp
    show ?thesis
    proof (cases i)
      case (Suc j)
      with "2.prems" out have "j < length (replace_ws r cs)" by simp
      from "2.IH"(1) [OF m "2.prems"(1) this] show ?thesis
        by (simp only: out Suc drop_Suc_Cons)
    next
      case 0
      have "match_at white_space (c # replace_ws r cs) = 0"
      proof (rule ccontr)
        assume "match_at white_space (c # replace_ws r cs) \<noteq> 0"
        from match_at_found [OF this] obtain u where
          u: "u \<in> set white_space" "take (length u) (c # replace_ws r cs) = u"
          by blast
        from utf8_char_hd [OF white_space_utf8 [OF u(1)]] u(2) obtain u' where
          u': "u = c # u'" by (cases u) auto
        with white_space_utf8 [OF u(1)] have "list_all continuation u'"
          by (simp add: utf8_char_def)
        moreover from u(2) u' have "take (length u') (replace_ws ''+'' cs) = u'"
          using "2.prems"(1) by simp
        ultimately have "take (length u') cs = u'"
          by (rule replace_ws_continuation_prefix)
        with u' have "take (length u) (c # cs) = u" by simp
        with u(1) have "find (\<lambda>w. take (length w) (c # cs) = w) white_space \<noteq> None"
          by (auto simp: find_None_iff)
        then obtain w where w: "find (\<lambda>w. take (length w) (c # cs) = w) white_space = Some w"
          by auto
        then have "w \<in> set white_space" by (auto simp: find_Some_iff)
        from utf8_char_hd [OF white_space_utf8 [OF this]] w m show False
          by (simp add: match_at_def)
      qed
      with 0 show ?thesis by (simp only: out drop_0)
    qed
  next
    case m: False
    then have out: "replace_ws r (c # cs) = r @ replace_ws r (drop_matches white_space (c # cs))"
      by simp
    show ?thesis
    proof (cases i)
      case 0
      with out "2.prems"(1) show ?thesis
        by (simp add: match_at_plus)
    next
      case (Suc j)
      note r = "2.prems"(1)
      from "2.prems"(2) have "Suc j < length (r @ replace_ws r (drop_matches white_space (c # cs)))"
        by (simp only: out Suc)
      then have j: "j < length (replace_ws r (drop_matches white_space (c # cs)))"
        by (simp add: r)
      have "match_at white_space (drop j (replace_ws r (drop_matches white_space (c # cs)))) = 0"
        by (rule "2.IH"(2) [OF m r j])
      moreover have "drop i (replace_ws r (c # cs))
                     = drop j (replace_ws r (drop_matches white_space (c # cs)))"
        by (simp only: out Suc) (simp add: r)
      ultimately show ?thesis by simp
    qed
  qed
qed

lemma normalize_no_space:
  "i < length (normalize_ws x) \<Longrightarrow> match_at white_space (drop i (normalize_ws x)) = 0"
  using replace_ws_no_space [OF refl]
  by (cases x) (auto simp: normalize_ws_def or_else_def split: if_splits)

lemma normalize_words:
  assumes ls: "set ls \<subseteq> set white_space" and ts: "set ts \<subseteq> set white_space"
    and w: "w \<noteq> []" "\<forall>c \<in> set w. utf8_char c \<and> c \<notin> set white_space"
    and rest: "\<forall>(g, v) \<in> set rest. g \<noteq> [] \<and> set g \<subseteq> set white_space \<and> v \<noteq> [] \<and>
                 (\<forall>c \<in> set v. utf8_char c \<and> c \<notin> set white_space)"
  shows "normalize_ws (Some (concat ls @ concat w
            @ concat (map (\<lambda>(g, v). concat g @ concat v) rest) @ concat ts))
         = concat w @ concat (map (\<lambda>(g, v). ''+'' @ concat v) rest)"
proof -
  define cs where "cs = w @ concat (map (\<lambda>(g, v). g @ v) rest)"
  have flat: "concat (w' @ concat (map (\<lambda>(g, v). g @ v) rest'))
              = concat w' @ concat (map (\<lambda>(g, v). concat g @ concat v) rest')" for w' rest'
    by (induction rest' arbitrary: w') (auto simp: case_prod_beta)
  have ne: "cs \<noteq> []"
    using w(1) by (simp add: cs_def)
  have chars: "utf8_char c" if "c \<in> set cs" for c
    using that w(2) rest white_space_utf8 by (fastforce simp: cs_def)
  have h: "hd cs \<notin> set white_space"
    using w by (cases w) (auto simp: cs_def)
  have lastw: "last (w @ concat (map (\<lambda>(g, v). g @ v) rest')) \<notin> set white_space"
    if "\<forall>(g, v) \<in> set rest'. v \<noteq> [] \<and> (\<forall>c \<in> set v. c \<notin> set white_space)" for rest'
    using that
  proof (induction rest' rule: rev_induct)
    case Nil
    then show ?case using w by simp
  next
    case (snoc p rest')
    obtain g v where p: "p = (g, v)" by (cases p)
    with snoc.prems have "v \<noteq> []" "\<forall>c \<in> set v. c \<notin> set white_space" by auto
    then show ?case by (simp add: p)
  qed
  have "\<forall>(g, v) \<in> set rest. v \<noteq> [] \<and> (\<forall>c \<in> set v. c \<notin> set white_space)"
    using rest by fastforce
  then have la: "last cs \<notin> set white_space"
    unfolding cs_def by (rule lastw)
  have "trim (concat ls @ concat cs @ concat ts) = concat cs"
    by (rule trim_strip [OF ls ts ne chars h la])
  then have "normalize_ws (Some (concat ls @ concat cs @ concat ts))
             = or_else (Some (replace_ws ''+'' (concat cs))) []"
    by (simp add: normalize_ws_def)
  also have "concat cs = concat w @ concat (map (\<lambda>(g, v). concat g @ concat v) rest)"
    by (simp only: cs_def flat)
  also have "replace_ws ''+'' (concat w @ concat (map (\<lambda>(g, v). concat g @ concat v) rest))
             = concat w @ concat (map (\<lambda>(g, v). ''+'' @ concat v) rest)"
    using w(2) by (intro replace_ws_words rest) simp
  finally have "normalize_ws (Some (concat ls @ (concat w
            @ concat (map (\<lambda>(g, v). concat g @ concat v) rest)) @ concat ts))
         = or_else (Some (concat w @ concat (map (\<lambda>(g, v). ''+'' @ concat v) rest))) []" .
  moreover have "concat w \<noteq> []"
    using w utf8_char_hd by (cases w) auto
  ultimately show ?thesis
    by (simp add: or_else_def)
qed

lemma normalize_blank:
  assumes "set ls \<subseteq> set white_space"
  shows "normalize_ws (Some (concat ls)) = []"
proof -
  have "drop_matches white_space (concat ls @ []) = []"
  proof (rule drop_matches_chars)
    fix c rest assume "c \<in> set ls"
    with assms have c: "c \<in> set white_space" by auto
    from match_at_char [OF white_space_utf8 [OF c], of rest] c utf8_char_hd [OF white_space_utf8 [OF c]]
    show "c \<noteq> [] \<and> match_at white_space (c @ rest) = length c" by simp
  next
    show "match_at white_space [] = 0"
      by (simp add: match_at_def find_None_iff white_space_def)
  qed
  then have "trimStart (concat ls) = []"
    by (simp add: trimStart_def)
  moreover have "match_at pats [] = 0" for pats
    by (auto simp: match_at_def find_Some_iff split: option.splits)
  then have "drop_matches pats [] = []" for pats
    by (subst drop_matches.simps) simp
  ultimately have "trim (concat ls) = []"
    by (simp add: trim_def trimEnd_def)
  then show ?thesis
    by (simp add: normalize_ws_def or_else_def)
qed

text \<open>
  Claim C9. The constructor normalises keyword and location: white space at both ends is
  removed and every run of white space between two words becomes one \<open>+\<close>. White space is
  every character of \<^verbatim>\<open>\s\<close>, the no-break space and the other Unicode spaces included.
  A text of words \<open>w, v\<^sub>1, \<dots>, v\<^sub>n\<close> (non-empty lists of characters other than white space)
  separated by white-space runs \<open>g\<^sub>1, \<dots>, g\<^sub>n\<close>, with white space \<open>ls\<close> before and \<open>ts\<close>
  after, becomes \<open>w+v\<^sub>1+\<dots>+v\<^sub>n\<close>; a text of white space only becomes the empty string; the
  keyword \<open>software  engineer\<close> becomes \<open>software+engineer\<close> and the location \<open> London \<close>
  becomes \<open>London\<close>; and at no position of a normalised keyword or location does a
  white-space character start.
\<close>

theorem Query_constructor_normalizes_whitespace:
  "keyword (Query_constructor (qo\<lparr>qo_keyword := Some ''software  engineer''\<rparr>))
     = ''software+engineer''
   \<and> location (Query_constructor (qo\<lparr>qo_location := Some '' London ''\<rparr>)) = ''London''
   \<and> (\<forall>i < length (keyword (Query_constructor qo)).
         match_at white_space (drop i (keyword (Query_constructor qo))) = 0)
   \<and> (\<forall>i < length (location (Query_constructor qo)).
         match_at white_space (drop i (location (Query_constructor qo))) = 0)
   \<and> (set ls \<subseteq> set white_space
       \<longrightarrow> keyword (Query_constructor (qo\<lparr>qo_keyword := Some (concat ls)\<rparr>)) = []
         \<and> location (Query_constructor (qo\<lparr>qo_location := Some (concat ls)\<rparr>)) = [])
   \<and> (set ls \<subseteq> set white_space \<and> set ts \<subseteq> set white_space \<and>
       w \<noteq> [] \<and> (\<forall>c \<in> set w. utf8_char c \<and> c \<notin> set white_space) \<and>
       (\<forall>(g, v) \<in> set rest. g \<noteq> [] \<and> set g \<subseteq> set white_space \<and>
                               v \<noteq> [] \<and> (\<forall>c \<in> set v. utf8_char c \<and> c \<notin> set white_space))
       \<longrightarrow> keyword (Query_constructor
              (qo\<lparr>qo_keyword := Some (concat ls @ concat w
                 @ concat (map (\<lambda>(g, v). concat g @ concat v) rest) @ concat ts)\<rparr>))
             = concat w @ concat (map (\<lambda>(g, v). ''+'' @ concat v) rest)
         \<and> location (Query_constructor
              (qo\<lparr>qo_location := Some (concat ls @ concat w
                 @ concat (map (\<lambda>(g, v). concat g @ concat v) rest) @ concat ts)\<rparr>))
             = concat w @ concat (map (\<lambda>(g, v). ''+'' @ concat v) rest))"
proof -
  have k: "keyword (Query_constructor (qo\<lparr>qo_keyword := Some s\<rparr>)) = normalize_ws (Some s)" for s
    by (simp add: Query_constructor_def)
  have lo: "location (Query_constructor (qo\<lparr>qo_location := Some s\<rparr>)) = normalize_ws (Some s)" for s
    by (simp add: Query_constructor_def)
  have 1: "normalize_ws (Some ''software  engineer'') = ''software+engineer''"
    by code_simp
  have 2: "normalize_ws (Some '' London '') = ''London''"
    by code_simp
  have 3: "\<forall>i < length (keyword (Query_constructor qo)).
             match_at white_space (drop i (keyword (Query_constructor qo))) = 0"
    using normalize_no_space by (simp add: Query_constructor_def)
  have 4: "\<forall>i < length (location (Query_constructor qo)).
             match_at white_space (drop i (location (Query_constructor qo))) = 0"
    using normalize_no_space by (simp add: Query_constructor_def)
  show ?thesis
    using 1 2 3 4 normalize_blank [of ls] normalize_words [of ls ts w rest]
    by (simp only: k lo) blast
qed

theorem Query_constructor_normalizes_whitespace_witness:
  "keyword (Query_constructor (emptyQueryObject\<lparr>qo_keyword :=
       Some ([CHR 0xC2, CHR 0xA0] @ '' data'' @ [CHR 0xC2, CHR 0xA0] @ ''  caf'' @ [CHR 0xC3, CHR 0xA9]
             @ [CHR 0xE2, CHR 0x80, CHR 0x83] @ ''jobs '' @ [CHR 0xEF, CHR 0xBB, CHR 0xBF])\<rparr>))
     = ''data+caf'' @ [CHR 0xC3, CHR 0xA9] @ ''+jobs''
   \<and> location (Query_constructor (emptyQueryObject\<lparr>qo_location :=
       Some ('' '' @ [CHR 0xC2, CHR 0xA0] @ [CHR 0xE3, CHR 0x80, CHR 0x80])\<rparr>)) = []
   \<and> match_at white_space (drop 4 (keyword (Query_constructor
         (emptyQueryObject\<lparr>qo_keyword := Some ''data science''\<rparr>)))) = 0
   \<and> drop 4 (keyword (Query_constructor
         (emptyQueryObject\<lparr>qo_keyword := Some ''data science''\<rparr>))) = ''+science''"
proof -
  let ?nbsp = "[CHR 0xC2, CHR 0xA0]"
  let ?em = "[CHR 0xE2, CHR 0x80, CHR 0x83]"
  let ?ideo = "[CHR 0xE3, CHR 0x80, CHR 0x80]"
  let ?bom = "[CHR 0xEF, CHR 0xBB, CHR 0xBF]"
  let ?e = "[CHR 0xC3, CHR 0xA9]"
  let ?ls = "[?nbsp, '' '']"
  let ?ts = "['' '', ?bom]"
  let ?w = "[''d'', ''a'', ''t'', ''a'']"
  let ?rest = "[([?nbsp, '' '', '' ''], [''c'', ''a'', ''f'', ?e]), ([?em], [''j'', ''o'', ''b'', ''s''])]"
  let ?blank = "['' '', ?nbsp, ?ideo]"
  have ws: "set ?ls \<subseteq> set white_space" "set ?ts \<subseteq> set white_space"
    "set ?blank \<subseteq> set white_space"
    by code_simp+
  have w: "?w \<noteq> []" "\<forall>c \<in> set ?w. utf8_char c \<and> c \<notin> set white_space"
    by code_simp+
  have rest: "\<forall>(g, v) \<in> set ?rest. g \<noteq> [] \<and> set g \<subseteq> set white_space \<and> v \<noteq> [] \<and>
                (\<forall>c \<in> set v. utf8_char c \<and> c \<notin> set white_space)"
    by code_simp
  note general = Query_constructor_normalizes_whitespace
      [of emptyQueryObject ?ls ?ts ?w ?rest, THEN conjunct2, THEN conjunct2, THEN conjunct2,
       THEN conjunct2, THEN conjunct2, THEN mp, OF conjI [OF ws(1) conjI [OF ws(2) conjI [OF w(1) conjI [OF w(2) rest]]]],
       THEN conjunct1]
  note blank = Query_constructor_normalizes_whitespace
      [of emptyQueryObject ?blank, THEN conjunct2, THEN conjunct2, THEN conjunct2,
       THEN conjunct2, THEN conjunct1, THEN mp, OF ws(3), THEN conjunct2]
  note nospace = Query_constructor_normalizes_whitespace
      [of "emptyQueryObject\<lparr>qo_keyword := Some ''data science''\<rparr>", THEN conjunct2, THEN conjunct2,
       THEN conjunct1, THEN spec, of 4, THEN mp]
  have len: "4 < length (keyword (Query_constructor
         (emptyQueryObject\<lparr>qo_keyword := Some ''data science''\<rparr>)))"
    by code_simp
  have d: "drop 4 (keyword (Query_constructor
         (emptyQueryObject\<lparr>qo_keyword := Some ''data science''\<rparr>))) = ''+science''"
    by code_simp
  from general have "keyword (Query_constructor (emptyQueryObject\<lparr>qo_keyword :=
       Some ([CHR 0xC2, CHR 0xA0] @ '' data'' @ [CHR 0xC2, CHR 0xA0] @ ''  caf'' @ [CHR 0xC3, CHR 0xA9]
             @ [CHR 0xE2, CHR 0x80, CHR 0x83] @ ''jobs '' @ [CHR 0xEF, CHR 0xBB, CHR 0xBF])\<rparr>))
     = ''data+caf'' @ [CHR 0xC3, CHR 0xA9] @ ''+jobs''"
    by simp
  moreover from blank have "location (Query_constructor (emptyQueryObject\<lparr>qo_location :=
       Some ('' '' @ [CHR 0xC2, CHR 0xA0] @ [CHR 0xE3, CHR 0x80, CHR 0x80])\<rparr>)) = []"
    by simp
  ultimately show ?thesis
    using nospace [OF len] d by blast
qed

section \<open>Properties of the record extractor\<close>

lemma callback_Throws: "callback Throws = None"
  by (simp add: callback_def try_extract_def)

lemma callback_Li:
  "callback (Li e) =
     (if trim (title_text e) = [] \<or> trim (subtitle_text e) = [] then None
      else Some \<lparr> position = trim (title_text e), company = trim (subtitle_text e),
             job_location = trim (location_text e), date = time_datetime e,
             job_salary = or_else (Some (replace_ws [CHR '' ''] (trim (salary_info_text e))))
                            ''Not specified'',
             jobUrl = or_else (full_link_href e) [],
             companyLogo = or_else (image_delayed_url e) [],
             agoTime = or_else (Some (trim (listdate_text e))) [] \<rparr>)"
  by (simp add: callback_def try_extract_def Let_def)

lemma map_filter_append: "List.map_filter f (xs @ ys) = List.map_filter f xs @ List.map_filter f ys"
  by (simp add: List.map_filter_def)

lemma parseJobList_Inr: "load jobData = Inr cands \<Longrightarrow>
  parseJobList load jobData = Inr (List.map_filter callback cands)"
  by (simp add: parseJobList_def)

lemma parseJobList_Inl: "load jobData = Inl err \<Longrightarrow> parseJobList load jobData = Inr []"
  by (simp add: parseJobList_def)

lemma map_filter_callback:
  "List.map_filter callback cands =
     map (\<lambda>e. \<lparr> position = trim (title_text e), company = trim (subtitle_text e),
             job_location = trim (location_text e), date = time_datetime e,
             job_salary = (if replace_ws [CHR '' ''] (trim (salary_info_text e)) = []
                           then ''Not specified''
                           else replace_ws [CHR '' ''] (trim (salary_info_text e))),
             jobUrl = (case full_link_href e of None \<Rightarrow> [] | Some u \<Rightarrow> u),
             companyLogo = (case image_delayed_url e of None \<Rightarrow> [] | Some u \<Rightarrow> u),
             agoTime = trim (listdate_text e) \<rparr>)
       (filter (\<lambda>e. trim (title_text e) \<noteq> [] \<and> trim (subtitle_text e) \<noteq> [])
          (concat (map (\<lambda>c. case c of Throws \<Rightarrow> [] | Li e \<Rightarrow> [e]) cands)))"
proof (induction cands)
  case Nil
  show ?case by (simp add: List.map_filter_simps)
next
  case (Cons c cands)
  show ?case
  proof (cases c)
    case Throws
    with Cons show ?thesis
      by (simp add: List.map_filter_simps callback_Throws)
  next
    case (Li e)
    with Cons show ?thesis
      by (simp add: List.map_filter_simps callback_Li or_else_def split: option.splits)
  qed
qed

text \<open>
  Claim C6. \<open>parseJobList\<close> returns a list of records for every input and never an error.
  A page that the markup library cannot load gives the empty list. Otherwise the result
  is, in page order, one record for each element that has a position and a company; an
  element whose reading throws is left out like one that lacks either. In each record a
  missing salary text is \<open>Not specified\<close>, and a missing link, logo or age label is the
  empty string. A text of white space only is missing, and white space is every character
  of \<^verbatim>\<open>\s\<close>, the no-break space included.
\<close>

theorem parseJobList_total:
  "(\<exists>jobs. parseJobList load jobData = Inr jobs)
   \<and> (load jobData = Inl err \<longrightarrow> parseJobList load jobData = Inr [])
   \<and> (load jobData = Inr cands \<longrightarrow>
        parseJobList load jobData =
          Inr (map (\<lambda>e. \<lparr> position = trim (title_text e), company = trim (subtitle_text e),
                         job_location = trim (location_text e), date = time_datetime e,
                         job_salary = (if replace_ws [CHR '' ''] (trim (salary_info_text e)) = []
                                       then ''Not specified''
                                       else replace_ws [CHR '' ''] (trim (salary_info_text e))),
                         jobUrl = (case full_link_href e of None \<Rightarrow> [] | Some u \<Rightarrow> u),
                         companyLogo = (case image_delayed_url e of None \<Rightarrow> [] | Some u \<Rightarrow> u),
                         agoTime = trim (listdate_text e) \<rparr>)
                 (filter (\<lambda>e. trim (title_text e) \<noteq> [] \<and> trim (subtitle_text e) \<noteq> [])
                    (concat (map (\<lambda>c. case c of Throws \<Rightarrow> [] | Li e \<Rightarrow> [e]) cands)))))"
proof -
  have "\<exists>jobs. parseJobList load jobData = Inr jobs"
    by (cases "load jobData") (simp_all add: parseJobList_def)
  then show ?thesis
    using parseJobList_Inl [of load jobData err] parseJobList_Inr [of load jobData cands]
    by (simp only: map_filter_callback) blast
qed

theorem parseJobList_total_witness:
  "parseJobList
     (\<lambda>page. Inr
        [Li \<lparr> title_text = [CHR 0xC2, CHR 0xA0] @ ''Data Engineer '', subtitle_text = ''Acme'',
              location_text = ''London'', time_datetime = None,
              salary_info_text = '' '' @ [CHR 0xC2, CHR 0xA0],
              full_link_href = None, image_delayed_url = None, listdate_text = [] \<rparr>,
         Throws,
         Li \<lparr> title_text = ''Analyst'', subtitle_text = [CHR 0xE2, CHR 0x80, CHR 0x83] @ '' '',
              location_text = ''Leeds'', time_datetime = None, salary_info_text = ''1'',
              full_link_href = None, image_delayed_url = None, listdate_text = [] \<rparr>,
         Li \<lparr> title_text = ''Tester'', subtitle_text = ''Bolt'',
              location_text = ''York'', time_datetime = Some ''2024-01-01'',
              salary_info_text = ''10'' @ [CHR 0xC2, CHR 0xA0, CHR 0xC2, CHR 0xA0] @ ''- 20'',
              full_link_href = Some ''u'',
              image_delayed_url = Some ''v'', listdate_text = ''1 day ago'' \<rparr>])
     ''<ul></ul>''
   = Inr [\<lparr> position = ''Data Engineer'', company = ''Acme'', job_location = ''London'',
             date = None, job_salary = ''Not specified'', jobUrl = [], companyLogo = [],
             agoTime = [] \<rparr>,
          \<lparr> position = ''Tester'', company = ''Bolt'', job_location = ''York'',
             date = Some ''2024-01-01'', job_salary = ''10 - 20'', jobUrl = ''u'',
             companyLogo = ''v'', agoTime = ''1 day ago'' \<rparr>]
   \<and> parseJobList (\<lambda>page. Inl ParseError) ''{}'' = Inr []"
proof -
  note page =
    parseJobList_total
      [of "\<lambda>page. Inr
        [Li \<lparr> title_text = [CHR 0xC2, CHR 0xA0] @ ''Data Engineer '', subtitle_text = ''Acme'',
              location_text = ''London'', time_datetime = None,
              salary_info_text = '' '' @ [CHR 0xC2, CHR 0xA0],
              full_link_href = None, image_delayed_url = None, listdate_text = [] \<rparr>,
         Throws,
         Li \<lparr> title_text = ''Analyst'', subtitle_text = [CHR 0xE2, CHR 0x80, CHR 0x83] @ '' '',
              location_text = ''Leeds'', time_datetime = None, salary_info_text = ''1'',
              full_link_href = None, image_delayed_url = None, listdate_text = [] \<rparr>,
         Li \<lparr> title_text = ''Tester'', subtitle_text = ''Bolt'',
              location_text = ''York'', time_datetime = Some ''2024-01-01'',
              salary_info_text = ''10'' @ [CHR 0xC2, CHR 0xA0, CHR 0xC2, CHR 0xA0] @ ''- 20'',
              full_link_href = Some ''u'',
              image_delayed_url = Some ''v'', listdate_text = ''1 day ago'' \<rparr>]"
        "''<ul></ul>''" ParseError
        "[Li \<lparr> title_text = [CHR 0xC2, CHR 0xA0] @ ''Data Engineer '', subtitle_text = ''Acme'',
              location_text = ''London'', time_datetime = None,
              salary_info_text = '' '' @ [CHR 0xC2, CHR 0xA0],
              full_link_href = None, image_delayed_url = None, listdate_text = [] \<rparr>,
         Throws,
         Li \<lparr> title_text = ''Analyst'', subtitle_text = [CHR 0xE2, CHR 0x80, CHR 0x83] @ '' '',
              location_text = ''Leeds'', time_datetime = None, salary_info_text = ''1'',
              full_link_href = None, image_delayed_url = None, listdate_text = [] \<rparr>,
         Li \<lparr> title_text = ''Tester'', subtitle_text = ''Bolt'',
              location_text = ''York'', time_datetime = Some ''2024-01-01'',
              salary_info_text = ''10'' @ [CHR 0xC2, CHR 0xA0, CHR 0xC2, CHR 0xA0] @ ''- 20'',
              full_link_href = Some ''u'',
              image_delayed_url = Some ''v'', listdate_text = ''1 day ago'' \<rparr>]",
       THEN conjunct2, THEN conjunct2, THEN mp, OF refl]
  note unparsed =
    parseJobList_total
      [of "\<lambda>page. Inl ParseError" "''{}''" ParseError, THEN conjunct2, THEN conjunct1, THEN mp,
       OF refl]
  show ?thesis
    unfolding page unparsed by code_simp
qed

text \<open>
  Claim C7, as the source has it. The claim says that an item is discarded only when it
  lacks both position and company. The source discards an item that lacks either: an
  item with a position and no company is not returned.
\<close>

theorem parseJobList_keeps_item_with_position_only_counterexample:
  "trim (title_text \<lparr> title_text = ''Data Engineer'', subtitle_text = [],
           location_text = ''London'', time_datetime = None, salary_info_text = [],
           full_link_href = None, image_delayed_url = None, listdate_text = [] \<rparr>)
     = ''Data Engineer''
   \<and> parseJobList
       (\<lambda>page. Inr [Li \<lparr> title_text = ''Data Engineer'', subtitle_text = [],
           location_text = ''London'', time_datetime = None, salary_info_text = [],
           full_link_href = None, image_delayed_url = None, listdate_text = [] \<rparr>])
       ''<li></li>''
     = Inr []"
proof -
  have t: "trim ''Data Engineer'' = ''Data Engineer''" "trim [] = []"
    by code_simp+
  show ?thesis
    by (simp add: parseJobList_def List.map_filter_simps callback_Li t)
qed

text \<open>
  Claim C7, amended. An item is discarded exactly when it lacks a position or lacks a
  company, whatever stands before and after it on the page: an item with both yields a
  record with that position and that company, and an item that lacks one of them yields
  none. A position or company is lacking when its text is empty once the white space at
  its ends is removed, the no-break space and the other characters of \<^verbatim>\<open>\s\<close>
  included.
\<close>

theorem parseJobList_discards_item_iff:
  "(\<exists>a b d. parseJobList (\<lambda>page. Inr pre) jobData = Inr a
        \<and> parseJobList (\<lambda>page. Inr [c]) jobData = Inr b
        \<and> parseJobList (\<lambda>page. Inr post) jobData = Inr d
        \<and> parseJobList (\<lambda>page. Inr (pre @ c # post)) jobData = Inr (a @ b @ d))
   \<and> (parseJobList (\<lambda>page. Inr [Li e]) jobData = Inr []
        \<longleftrightarrow> trim (title_text e) = [] \<or> trim (subtitle_text e) = [])
   \<and> (trim (title_text e) \<noteq> [] \<and> trim (subtitle_text e) \<noteq> [] \<longrightarrow>
        (\<exists>j. parseJobList (\<lambda>page. Inr [Li e]) jobData = Inr [j]
           \<and> position j = trim (title_text e) \<and> company j = trim (subtitle_text e)))"
proof -
  have 1: "parseJobList (\<lambda>page. Inr (pre @ c # post)) jobData
           = Inr (List.map_filter callback pre @ List.map_filter callback [c]
                  @ List.map_filter callback post)"
    using map_filter_append [of callback pre "c # post"] map_filter_append [of callback "[c]" post]
    by (simp add: parseJobList_def)
  have 2: "parseJobList (\<lambda>page. Inr [Li e]) jobData = Inr []
           \<longleftrightarrow> trim (title_text e) = [] \<or> trim (subtitle_text e) = []"
    by (simp add: parseJobList_def List.map_filter_simps callback_Li)
  have 3: "trim (title_text e) \<noteq> [] \<and> trim (subtitle_text e) \<noteq> [] \<longrightarrow>
        (\<exists>j. parseJobList (\<lambda>page. Inr [Li e]) jobData = Inr [j]
           \<and> position j = trim (title_text e) \<and> company j = trim (subtitle_text e))"
    by (simp add: parseJobList_def List.map_filter_simps callback_Li)
  from 1 have "\<exists>a b d. parseJobList (\<lambda>page. Inr pre) jobData = Inr a
        \<and> parseJobList (\<lambda>page. Inr [c]) jobData = Inr b
        \<and> parseJobList (\<lambda>page. Inr post) jobData = Inr d
        \<and> parseJobList (\<lambda>page. Inr (pre @ c # post)) jobData = Inr (a @ b @ d)"
    by (simp add: parseJobList_def)
  with 2 3 show ?thesis by blast
qed

theorem parseJobList_discards_item_iff_witness:
  "(\<exists>j. parseJobList
       (\<lambda>page. Inr [Li \<lparr> title_text = [CHR 0xC2, CHR 0xA0] @ ''Data Engineer'' @ [CHR 0xC2, CHR 0xA0],
           subtitle_text = ''Acme'',
           location_text = ''London'', time_datetime = None, salary_info_text = [],
           full_link_href = None, image_delayed_url = None, listdate_text = [] \<rparr>])
       ''<li></li>'' = Inr [j]
     \<and> position j = ''Data Engineer'' \<and> company j = ''Acme'')
   \<and> parseJobList
       (\<lambda>page. Inr [Li \<lparr> title_text = ''Data Engineer'',
           subtitle_text = [CHR 0xC2, CHR 0xA0] @ '' '',
           location_text = ''London'', time_datetime = None, salary_info_text = [],
           full_link_href = None, image_delayed_url = None, listdate_text = [] \<rparr>])
       ''<li></li>'' = Inr []"
proof -
  let ?kept = "\<lparr> title_text = [CHR 0xC2, CHR 0xA0] @ ''Data Engineer'' @ [CHR 0xC2, CHR 0xA0],
           subtitle_text = ''Acme'',
           location_text = ''London'', time_datetime = None, salary_info_text = [],
           full_link_href = None, image_delayed_url = None, listdate_text = [] \<rparr>"
  let ?dropped = "\<lparr> title_text = ''Data Engineer'',
           subtitle_text = [CHR 0xC2, CHR 0xA0] @ '' '',
           location_text = ''London'', time_datetime = None, salary_info_text = [],
           full_link_href = None, image_delayed_url = None, listdate_text = [] \<rparr>"
  have both: "trim (title_text ?kept) \<noteq> [] \<and> trim (subtitle_text ?kept) \<noteq> []"
    by code_simp
  have t: "trim (title_text ?kept) = ''Data Engineer''" "trim (subtitle_text ?kept) = ''Acme''"
    by code_simp+
  have one: "trim (title_text ?dropped) = [] \<or> trim (subtitle_text ?dropped) = []"
    by code_simp
  note kept = parseJobList_discards_item_iff
      [of "[]" "''<li></li>''" Throws "[]" ?kept, THEN conjunct2, THEN conjunct2, THEN mp, OF both]
  note dropped = parseJobList_discards_item_iff
      [of "[]" "''<li></li>''" Throws "[]" ?dropped, THEN conjunct2, THEN conjunct1, THEN iffD2,
       OF one]
  from kept obtain j where
    "parseJobList (\<lambda>page. Inr [Li ?kept]) ''<li></li>'' = Inr [j]"
    "position j = trim (title_text ?kept)" "company j = trim (subtitle_text ?kept)"
    by blast
  then have "\<exists>j. parseJobList (\<lambda>page. Inr [Li ?kept]) ''<li></li>'' = Inr [j]
     \<and> position j = ''Data Engineer'' \<and> company j = ''Acme''"
    by (simp only: t) blast
  then show ?thesis using dropped by (rule conjI)
qed

section \<open>Properties of the cache\<close>

lemma map_of_Map_set: "map_of (Map_set k v c) = (map_of c)(k \<mapsto> v)"
  by (induction k v c rule: Map_set.induct) (auto simp: fun_eq_iff)

lemma map_fst_Map_set:
  "map fst (Map_set k v c) = (if k \<in> fst ` set c then map fst c else map fst c @ [k])"
  by (induction k v c rule: Map_set.induct) auto

lemma distinct_Map_set: "distinct (map fst c) \<Longrightarrow> distinct (map fst (Map_set k v c))"
  by (simp add: map_fst_Map_set)

lemma Map_delete_filter:
  "distinct (map fst c) \<Longrightarrow> Map_delete k c = filter (\<lambda>p. fst p \<noteq> k) c"
proof (induction k c rule: Map_delete.induct)
  case (1 k)
  then show ?case by simp
next
  case (2 k a b ps)
  show ?case
  proof (cases "a = k")
    case True
    have "filter (\<lambda>p. fst p \<noteq> k) ps = ps"
      using "2.prems" True by (intro filter_True) (auto simp: image_iff)
    then show ?thesis using True by simp
  next
    case False
    then show ?thesis using 2 by simp
  qed
qed

lemma distinct_Map_delete: "distinct (map fst c) \<Longrightarrow> distinct (map fst (Map_delete k c))"
  by (simp add: Map_delete_filter distinct_map_filter)

lemma map_of_Map_delete:
  "distinct (map fst c) \<Longrightarrow> map_of (Map_delete k c) = (map_of c)(k := None)"
proof (induction k c rule: Map_delete.induct)
  case (1 k)
  then show ?case by simp
next
  case (2 k a b ps)
  show ?case
  proof (cases "a = k")
    case True
    have "map_of ps k = None"
      using "2.prems" True by (simp add: map_of_eq_None_iff)
    then show ?thesis using True by (auto simp: fun_eq_iff)
  next
    case False
    then show ?thesis using 2 by (auto simp: fun_eq_iff)
  qed
qed

lemma fold_delete_filter:
  "distinct (map fst c) \<Longrightarrow>
   fold (\<lambda>(key, val) c. if P val then Map_delete key c else c) xs c
     = filter (\<lambda>p. fst p \<notin> fst ` {x \<in> set xs. P (snd x)}) c"
proof (induction xs arbitrary: c)
  case Nil
  then show ?case by simp
next
  case (Cons x xs)
  obtain k v where x: "x = (k, v)" by (cases x)
  show ?case
  proof (cases "P v")
    case True
    have "fold (\<lambda>(key, val) c. if P val then Map_delete key c else c) (x # xs) c
          = filter (\<lambda>p. fst p \<notin> fst ` {x \<in> set xs. P (snd x)}) (Map_delete k c)"
      using Cons.IH [OF distinct_Map_delete [OF Cons.prems, of k]] True by (simp add: x)
    also have "\<dots> = filter (\<lambda>p. fst p \<notin> fst ` {x \<in> set xs. P (snd x)} \<and> fst p \<noteq> k) c"
      by (simp add: Map_delete_filter [OF Cons.prems] conj_commute)
    also have "\<dots> = filter (\<lambda>p. fst p \<notin> fst ` {y \<in> set (x # xs). P (snd y)}) c"
      using True by (intro filter_cong) (auto simp: x image_iff)
    finally show ?thesis .
  next
    case False
    have "fold (\<lambda>(key, val) c. if P val then Map_delete key c else c) (x # xs) c
          = filter (\<lambda>p. fst p \<notin> fst ` {x \<in> set xs. P (snd x)}) c"
      using Cons.IH [OF Cons.prems] False by (simp add: x)
    also have "\<dots> = filter (\<lambda>p. fst p \<notin> fst ` {y \<in> set (x # xs). P (snd y)}) c"
      using False by (intro filter_cong) (auto simp: x image_iff)
    finally show ?thesis .
  qed
qed

lemma JobCache_clear_filter:
  assumes "distinct (map fst cache)"
  shows "JobCache_clear cache now
         = filter (\<lambda>(key, item). \<not> now - timestamp item > TTL) cache"
proof -
  have "JobCache_clear cache now
        = filter (\<lambda>p. fst p \<notin> fst ` {x \<in> set cache. now - timestamp (snd x) > TTL}) cache"
    unfolding JobCache_clear_def by (rule fold_delete_filter [OF assms])
  also have "\<dots> = filter (\<lambda>(key, item). \<not> now - timestamp item > TTL) cache"
  proof (rule filter_cong [OF refl])
    fix p assume p: "p \<in> set cache"
    obtain k v where kv: "p = (k, v)" by (cases p)
    have "k \<in> fst ` {x \<in> set cache. now - timestamp (snd x) > TTL}
          \<longleftrightarrow> now - timestamp v > TTL"
    proof
      assume "k \<in> fst ` {x \<in> set cache. now - timestamp (snd x) > TTL}"
      then obtain v' where v': "(k, v') \<in> set cache" "now - timestamp v' > TTL"
        by force
      have "v' = v"
        using eq_key_imp_eq_value [OF assms v'(1)] p kv by simp
      with v'(2) show "now - timestamp v > TTL" by simp
    next
      assume "now - timestamp v > TTL"
      then have "(k, v) \<in> {x \<in> set cache. now - timestamp (snd x) > TTL}"
        using p kv by simp
      then show "k \<in> fst ` {x \<in> set cache. now - timestamp (snd x) > TTL}"
        by (rule image_eqI [rotated]) simp
    qed
    then show "(fst p \<notin> fst ` {x \<in> set cache. now - timestamp (snd x) > TTL})
               = (case p of (key, item) \<Rightarrow> \<not> now - timestamp item > TTL)"
      by (simp add: kv)
  qed
  finally show ?thesis .
qed

lemma JobCache_get_set:
  "JobCache_get (JobCache_set cache now key val) now' key =
     (if now' - now > TTL then (None, Map_delete key (JobCache_set cache now key val))
      else (Some val, JobCache_set cache now key val))"
  by (simp add: JobCache_get_def JobCache_set_def map_of_Map_set)

lemma JobCache_distinct:
  "distinct (map fst JobCache_constructor)"
  "distinct (map fst cache) \<Longrightarrow> distinct (map fst (JobCache_set cache now key val))"
  "distinct (map fst cache) \<Longrightarrow> distinct (map fst (snd (JobCache_get cache now key)))"
  "distinct (map fst cache) \<Longrightarrow> distinct (map fst (JobCache_clear cache now))"
  by (simp_all add: JobCache_constructor_def JobCache_set_def JobCache_get_def distinct_Map_set
      distinct_Map_delete JobCache_clear_filter distinct_map_filter split: option.splits)

text \<open>
  Claim C5. A \<open>get\<close> of a key right after its \<open>set\<close>, and at any time at which no more
  than the TTL has passed since, returns the stored list and leaves the cache as it is.
  Once more than the TTL has passed the \<open>get\<close> returns \<open>null\<close> and the entry is gone
  from the cache. \<open>clear\<close> keeps exactly the entries that are no older than the TTL, in
  their order.
\<close>

theorem JobCache_get_set_clear:
  "JobCache_get (JobCache_set cache now key val) now key
     = (Some val, JobCache_set cache now key val)
   \<and> (now' - now \<le> TTL \<longrightarrow>
        JobCache_get (JobCache_set cache now key val) now' key
          = (Some val, JobCache_set cache now key val))
   \<and> (now' - now > TTL \<longrightarrow>
        fst (JobCache_get (JobCache_set cache now key val) now' key) = None)
   \<and> (distinct (map fst cache) \<and> now' - now > TTL \<longrightarrow>
        map_of (snd (JobCache_get (JobCache_set cache now key val) now' key)) key = None)
   \<and> (distinct (map fst cache) \<longrightarrow>
        JobCache_clear cache now' = filter (\<lambda>(k, item). now' - timestamp item \<le> TTL) cache)"
proof -
  have 1: "JobCache_get (JobCache_set cache now key val) now key
             = (Some val, JobCache_set cache now key val)"
    by (simp add: JobCache_get_set TTL_def)
  have 2: "now' - now \<le> TTL \<longrightarrow>
        JobCache_get (JobCache_set cache now key val) now' key
          = (Some val, JobCache_set cache now key val)"
    by (simp add: JobCache_get_set)
  have 3: "now' - now > TTL \<longrightarrow>
        fst (JobCache_get (JobCache_set cache now key val) now' key) = None"
    by (simp add: JobCache_get_set)
  have 4: "distinct (map fst cache) \<and> now' - now > TTL \<longrightarrow>
        map_of (snd (JobCache_get (JobCache_set cache now key val) now' key)) key = None"
    using map_of_Map_delete [OF JobCache_distinct(2), of cache key now key val]
    by (simp add: JobCache_get_set)
  have 5: "distinct (map fst cache) \<longrightarrow>
        JobCache_clear cache now' = filter (\<lambda>(k, item). now' - timestamp item \<le> TTL) cache"
    by (simp add: JobCache_clear_filter not_less)
  from 1 2 3 4 5 show ?thesis by blast
qed

theorem JobCache_get_set_clear_witness:
  "JobCache_get (JobCache_set [(''u'', \<lparr> data = [], timestamp = 7 \<rparr>)] 1000 ''u'' []) 3601000 ''u''
     = (Some [], [(''u'', \<lparr> data = [], timestamp = 1000 \<rparr>)])
   \<and> fst (JobCache_get (JobCache_set [(''u'', \<lparr> data = [], timestamp = 7 \<rparr>)] 1000 ''u'' [])
          3601001 ''u'') = None
   \<and> map_of (snd (JobCache_get (JobCache_set [(''u'', \<lparr> data = [], timestamp = 7 \<rparr>)] 1000 ''u'' [])
          3601001 ''u'')) ''u'' = None
   \<and> JobCache_clear [(''a'', \<lparr> data = [], timestamp = 0 \<rparr>), (''b'', \<lparr> data = [], timestamp = 1 \<rparr>),
                     (''c'', \<lparr> data = [], timestamp = 0 \<rparr>)] 3600001
     = [(''b'', \<lparr> data = [], timestamp = 1 \<rparr>)]"
proof -
  have d: "distinct (map fst [(''u'', \<lparr> data = ([] :: JobData list), timestamp = 7 \<rparr>)])"
    "distinct (map fst [(''a'', \<lparr> data = ([] :: JobData list), timestamp = 0 \<rparr>),
                        (''b'', \<lparr> data = [], timestamp = 1 \<rparr>),
                        (''c'', \<lparr> data = [], timestamp = 0 \<rparr>)])"
    by simp_all
  show ?thesis
    using JobCache_get_set_clear
        [of "[(''u'', \<lparr> data = [], timestamp = 7 \<rparr>)]" 1000 "''u''" "[]" 3601000]
      JobCache_get_set_clear
        [of "[(''u'', \<lparr> data = [], timestamp = 7 \<rparr>)]" 1000 "''u''" "[]" 3601001]
      JobCache_get_set_clear
        [of "[(''a'', \<lparr> data = [], timestamp = 0 \<rparr>), (''b'', \<lparr> data = [], timestamp = 1 \<rparr>),
              (''c'', \<lparr> data = [], timestamp = 0 \<rparr>)]" _ _ _ 3600001]
      d
    by (simp add: TTL_def JobCache_set_def)
qed

section \<open>Properties of the pagination loop\<close>

lemma fetched_append: "fetched (xs @ ys) = fetched xs @ fetched ys"
  by (induction xs rule: fetched.induct) simp_all

lemma fetchJobBatch_cases:
  obtains (ok) jobs where "fetchJobBatch load q http s = Inr jobs"
  | (failed) e where "fetchJobBatch load q http s = Inl e"
  by (cases "fetchJobBatch load q http s") auto

lemma loop_body_failed:
  "fetchJobBatch load q http (start st) = Inl e \<Longrightarrow>
   loop_body load q http st =
     (if consecutiveErrors st + 1 \<ge> 3
      then (Break (allJobs st),
            [FetchJobBatch (start st) (Inl e), LogError (consecutiveErrors st + 1) e, LogMaxErrors])
      else (Continue (st\<lparr> consecutiveErrors := consecutiveErrors st + 1 \<rparr>),
            [FetchJobBatch (start st) (Inl e), LogError (consecutiveErrors st + 1) e,
             Backoff (2 ^ (consecutiveErrors st + 1) * 1000)]))"
  by (simp add: loop_body_def Let_def MAX_CONSECUTIVE_ERRORS_def)

lemma loop_body_ok:
  "fetchJobBatch load q http (start st) = Inr jobs \<Longrightarrow>
   loop_body load q http st =
     (if jobs = [] then (Break (allJobs st), [FetchJobBatch (start st) (Inr [])])
      else if limit q \<noteq> 0 \<and> int (length (allJobs st @ jobs)) \<ge> limit q
      then (Break (slice0 (allJobs st @ jobs) (limit q)),
            [FetchJobBatch (start st) (Inr jobs),
             LogFetched (length jobs) (length (allJobs st @ jobs))])
      else (Continue \<lparr> allJobs = allJobs st @ jobs, start = start st + 25,
                       consecutiveErrors = 0 \<rparr>,
            [FetchJobBatch (start st) (Inr jobs),
             LogFetched (length jobs) (length (allJobs st @ jobs)), Pause]))"
  by (simp add: loop_body_def Let_def BATCH_SIZE_def)

lemma while_hasMore_result:
  "while_hasMore load q net st = Some (jobs, evs) \<Longrightarrow>
   evs \<noteq> [] \<and>
   ((last evs = LogMaxErrors \<and> jobs = allJobs st @ fetched evs)
    \<or> (\<exists>s. last evs = FetchJobBatch s (Inr []) \<and> jobs = allJobs st @ fetched evs)
    \<or> (\<exists>n m. last evs = LogFetched n m \<and> limit q \<noteq> 0
          \<and> int (length (allJobs st @ fetched evs)) \<ge> limit q
          \<and> jobs = slice0 (allJobs st @ fetched evs) (limit q)))
   \<and> (0 < limit q \<and> int (length (allJobs st)) < limit q \<longrightarrow>
        jobs = take (nat (limit q)) (allJobs st @ fetched evs)
        \<and> ((\<exists>n m. last evs = LogFetched n m)
             \<or> int (length (allJobs st @ fetched evs)) < limit q))"
proof (induction net arbitrary: st jobs evs)
  case Nil
  then show ?case by simp
next
  case (Cons http net)
  show ?case
  proof (cases rule: fetchJobBatch_cases [of load q http "start st"])
    case (failed e)
    show ?thesis
    proof (cases "consecutiveErrors st + 1 \<ge> 3")
      case True
      with failed Cons.prems show ?thesis
        by (auto simp: loop_body_failed)
    next
      case False
      let ?st = "st\<lparr> consecutiveErrors := consecutiveErrors st + 1 \<rparr>"
      let ?evs = "[FetchJobBatch (start st) (Inl e), LogError (consecutiveErrors st + 1) e,
             Backoff (2 ^ (consecutiveErrors st + 1) * 1000)]"
      from failed False Cons.prems obtain evs' where
        run: "while_hasMore load q net ?st = Some (jobs, evs')" and evs: "evs = ?evs @ evs'"
        by (auto simp: loop_body_failed split: option.splits)
      note IH = Cons.IH [OF run]
      from IH have ne: "evs' \<noteq> []" by blast
      have f: "fetched evs = fetched evs'" "last evs = last evs'" "evs \<noteq> []"
        using ne by (simp_all add: evs)
      show ?thesis
        using IH f(3) unfolding f(1,2) by simp
    qed
  next
    case (ok batch)
    show ?thesis
    proof (cases "batch = []")
      case True
      with ok Cons.prems show ?thesis
        by (auto simp: loop_body_ok)
    next
      case ne: False
      show ?thesis
      proof (cases "limit q \<noteq> 0 \<and> int (length (allJobs st @ batch)) \<ge> limit q")
        case True
        with ok ne Cons.prems show ?thesis
          by (auto simp: loop_body_ok slice0_def)
      next
        case False
        let ?st = "\<lparr> allJobs = allJobs st @ batch, start = start st + 25, consecutiveErrors = 0 \<rparr>"
        let ?evs = "[FetchJobBatch (start st) (Inr batch),
             LogFetched (length batch) (length (allJobs st @ batch)), Pause]"
        from ok ne False Cons.prems obtain evs' where
          run: "while_hasMore load q net ?st = Some (jobs, evs')" and evs: "evs = ?evs @ evs'"
          by (auto simp: loop_body_ok split: option.splits)
        note IH = Cons.IH [OF run]
        from IH have ne': "evs' \<noteq> []" by blast
        have f: "allJobs st @ fetched evs = allJobs ?st @ fetched evs'" "last evs = last evs'"
          "evs \<noteq> []"
          using ne' by (simp_all add: evs)
        have lt: "0 < limit q \<and> int (length (allJobs st)) < limit q
                  \<Longrightarrow> int (length (allJobs ?st)) < limit q"
          using False by auto
        show ?thesis
          using IH lt f(3) unfolding f(1,2) by blast
      qed
    qed
  qed
qed


lemma getJobs_miss:
  "fst (JobCache_get cache now (url q 0)) = None \<Longrightarrow>
   getJobs load q now now' net cache =
     (case while_hasMore load q net \<lparr> allJobs = [], start = 0, consecutiveErrors = 0 \<rparr> of
        None \<Rightarrow> None
      | Some (jobs, evs) \<Rightarrow>
          Some \<lparr> returned = Inr jobs,
                 cache_after =
                   (if jobs \<noteq> []
                    then JobCache_set (snd (JobCache_get cache now (url q 0))) now' (url q 0) jobs
                    else snd (JobCache_get cache now (url q 0))),
                 events = evs \<rparr>)"
proof -
  assume "fst (JobCache_get cache now (url q 0)) = None"
  then obtain b where g: "JobCache_get cache now (url q 0) = (None, b)"
    by (cases "JobCache_get cache now (url q 0)") auto
  show ?thesis
    by (simp add: getJobs_def Let_def g split: option.splits)
qed

lemma getJobs_hit:
  "map_of cache (url q 0) = Some item \<Longrightarrow> now - timestamp item \<le> TTL \<Longrightarrow>
   getJobs load q now now' net cache =
     Some \<lparr> returned = Inr (data item), cache_after = cache, events = [LogCached] \<rparr>"
  by (simp add: getJobs_def JobCache_get_def Let_def)

lemma while_hasMore_three_failures:
  assumes "fetchJobBatch load q h1 0 = Inl e1" "fetchJobBatch load q h2 0 = Inl e2"
    "fetchJobBatch load q h3 0 = Inl e3"
  shows "while_hasMore load q (h1 # h2 # h3 # net)
           \<lparr> allJobs = [], start = 0, consecutiveErrors = 0 \<rparr>
         = Some ([], [FetchJobBatch 0 (Inl e1), LogError 1 e1, Backoff 2000,
                      FetchJobBatch 0 (Inl e2), LogError 2 e2, Backoff 4000,
                      FetchJobBatch 0 (Inl e3), LogError 3 e3, LogMaxErrors])"
  using assms by (simp add: loop_body_failed)


text \<open>
  Claim C1. On a cache miss, when the network answers at least three requests and
  \<open>fetchJobBatch\<close> fails on the first three answers, every call that \<open>getJobs\<close> makes
  fails: it makes exactly three calls, all at offset 0,
  waits \<open>2^1\<close> seconds after the first failure and \<open>2^2\<close> seconds after the second, stops
  at the third, and returns the empty list as a success; nothing is cached. In any pass
  of the loop a failed fetch adds one to the counter and, while the counter stays below
  three, waits \<open>2^counter\<close> seconds and goes on at the same offset with the same
  accumulated records; at three it leaves the loop with the accumulated records. A pass
  whose fetch succeeds with a page that is not empty and does not reach the limit goes on,
  at the next offset and with the page added to the accumulated records, with the counter
  at zero, whatever the counter was; and no pass whose fetch succeeds goes on with
  another counter.
\<close>

theorem getJobs_three_consecutive_failures:
  "(fst (JobCache_get cache now (url q 0)) = None
      \<and> (\<forall>http \<in> set (take 3 net). \<forall>s. isl (fetchJobBatch load q http s)) \<and> 3 \<le> length net
    \<longrightarrow> (\<exists>e1 e2 e3. getJobs load q now now' net cache =
           Some \<lparr> returned = Inr [],
                  cache_after = snd (JobCache_get cache now (url q 0)),
                  events = [FetchJobBatch 0 (Inl e1), LogError 1 e1, Backoff (2 ^ 1 * 1000),
                            FetchJobBatch 0 (Inl e2), LogError 2 e2, Backoff (2 ^ 2 * 1000),
                            FetchJobBatch 0 (Inl e3), LogError 3 e3, LogMaxErrors] \<rparr>))
   \<and> (fetchJobBatch load q http (start st) = Inl e \<and> consecutiveErrors st + 1 < 3 \<longrightarrow>
        loop_body load q http st =
          (Continue (st\<lparr> consecutiveErrors := consecutiveErrors st + 1 \<rparr>),
           [FetchJobBatch (start st) (Inl e), LogError (consecutiveErrors st + 1) e,
            Backoff (2 ^ (consecutiveErrors st + 1) * 1000)]))
   \<and> (fetchJobBatch load q http (start st) = Inl e \<and> consecutiveErrors st + 1 \<ge> 3 \<longrightarrow>
        loop_body load q http st =
          (Break (allJobs st),
           [FetchJobBatch (start st) (Inl e), LogError (consecutiveErrors st + 1) e,
            LogMaxErrors]))
   \<and> (fetchJobBatch load q http (start st) = Inr batch \<and> batch \<noteq> []
        \<and> \<not> (limit q \<noteq> 0 \<and> limit q \<le> int (length (allJobs st @ batch))) \<longrightarrow>
        loop_body load q http st =
          (Continue \<lparr> allJobs = allJobs st @ batch, start = start st + 25,
                      consecutiveErrors = 0 \<rparr>,
           [FetchJobBatch (start st) (Inr batch),
            LogFetched (length batch) (length (allJobs st @ batch)), Pause]))
   \<and> (fetchJobBatch load q http (start st) = Inr batch
        \<and> loop_body load q http st = (Continue st', evs) \<longrightarrow> consecutiveErrors st' = 0)"
proof -
  have run: "\<exists>e1 e2 e3. getJobs load q now now' net cache =
           Some \<lparr> returned = Inr [],
                  cache_after = snd (JobCache_get cache now (url q 0)),
                  events = [FetchJobBatch 0 (Inl e1), LogError 1 e1, Backoff (2 ^ 1 * 1000),
                            FetchJobBatch 0 (Inl e2), LogError 2 e2, Backoff (2 ^ 2 * 1000),
                            FetchJobBatch 0 (Inl e3), LogError 3 e3, LogMaxErrors] \<rparr>"
    if miss: "fst (JobCache_get cache now (url q 0)) = None"
      and fail: "\<forall>http \<in> set (take 3 net). \<forall>s. isl (fetchJobBatch load q http s)"
      and len: "3 \<le> length net"
  proof -
    from len obtain h1 h2 h3 rest where net: "net = h1 # h2 # h3 # rest"
      by (cases net; cases "tl net"; cases "tl (tl net)") auto
    from fail net have "isl (fetchJobBatch load q h1 0)" "isl (fetchJobBatch load q h2 0)"
      "isl (fetchJobBatch load q h3 0)"
      by simp_all
    then obtain e1 e2 e3 where
      e: "fetchJobBatch load q h1 0 = Inl e1" "fetchJobBatch load q h2 0 = Inl e2"
         "fetchJobBatch load q h3 0 = Inl e3"
      unfolding isl_def by blast
    show ?thesis
      using while_hasMore_three_failures [OF e, of rest]
      by (simp add: getJobs_miss [OF miss] net)
  qed
  have retry: "fetchJobBatch load q http (start st) = Inl e \<and> consecutiveErrors st + 1 < 3 \<longrightarrow>
        loop_body load q http st =
          (Continue (st\<lparr> consecutiveErrors := consecutiveErrors st + 1 \<rparr>),
           [FetchJobBatch (start st) (Inl e), LogError (consecutiveErrors st + 1) e,
            Backoff (2 ^ (consecutiveErrors st + 1) * 1000)])"
    by (simp add: loop_body_failed)
  have stop: "fetchJobBatch load q http (start st) = Inl e \<and> consecutiveErrors st + 1 \<ge> 3 \<longrightarrow>
        loop_body load q http st =
          (Break (allJobs st),
           [FetchJobBatch (start st) (Inl e), LogError (consecutiveErrors st + 1) e,
            LogMaxErrors])"
    by (simp add: loop_body_failed)
  have reset: "fetchJobBatch load q http (start st) = Inr batch
        \<and> loop_body load q http st = (Continue st', evs) \<longrightarrow> consecutiveErrors st' = 0"
    by (auto simp: loop_body_ok split: if_splits)
  have goes_on: "fetchJobBatch load q http (start st) = Inr batch \<and> batch \<noteq> []
        \<and> \<not> (limit q \<noteq> 0 \<and> limit q \<le> int (length (allJobs st @ batch))) \<longrightarrow>
        loop_body load q http st =
          (Continue \<lparr> allJobs = allJobs st @ batch, start = start st + 25,
                      consecutiveErrors = 0 \<rparr>,
           [FetchJobBatch (start st) (Inr batch),
            LogFetched (length batch) (length (allJobs st @ batch)), Pause])"
    by (simp add: loop_body_ok)
  from run retry stop goes_on reset show ?thesis by blast
qed

theorem getJobs_three_consecutive_failures_witness:
  "(\<exists>e1 e2 e3.
      getJobs two_pages (Query_constructor nurse) 0 1
        [\<lambda>u. NoResponse, \<lambda>u. Response 429 [], \<lambda>u. Response 500 [], \<lambda>u. Response 200 ''A''] []
      = Some \<lparr> returned = Inr [], cache_after = [],
               events = [FetchJobBatch 0 (Inl e1), LogError 1 e1, Backoff 2000,
                         FetchJobBatch 0 (Inl e2), LogError 2 e2, Backoff 4000,
                         FetchJobBatch 0 (Inl e3), LogError 3 e3, LogMaxErrors] \<rparr>)
   \<and> loop_body two_pages (Query_constructor nurse) (\<lambda>u. NoResponse)
        \<lparr> allJobs = [job ''a1'' ''c''], start = 25, consecutiveErrors = 1 \<rparr>
      = (Continue \<lparr> allJobs = [job ''a1'' ''c''], start = 25, consecutiveErrors = 2 \<rparr>,
         [FetchJobBatch 25 (Inl NetworkError), LogError 2 NetworkError, Backoff 4000])
   \<and> loop_body two_pages (Query_constructor nurse) (\<lambda>u. Response 200 ''B'')
        \<lparr> allJobs = [job ''a1'' ''c''], start = 25, consecutiveErrors = 2 \<rparr>
      = (Continue \<lparr> allJobs = [job ''a1'' ''c'', job ''b1'' ''c'', job ''b2'' ''c''], start = 50,
                    consecutiveErrors = 0 \<rparr>,
         [FetchJobBatch 25 (Inr [job ''b1'' ''c'', job ''b2'' ''c'']), LogFetched 2 3, Pause])"
proof -
  let ?q = "Query_constructor nurse"
  let ?net = "[\<lambda>u. NoResponse, \<lambda>u. Response 429 [], \<lambda>u. Response 500 [],
               \<lambda>u. Response 200 ''A''] :: Http list"
  let ?st = "\<lparr> allJobs = [job ''a1'' ''c''], start = 25, consecutiveErrors = 1 \<rparr>"
  let ?st' = "\<lparr> allJobs = [job ''a1'' ''c''], start = 25, consecutiveErrors = 2 \<rparr>"
  let ?batch = "[job ''b1'' ''c'', job ''b2'' ''c'']"
  have miss: "fst (JobCache_get [] 0 (url ?q 0)) = None"
    by (simp add: JobCache_get_def)
  have fail: "\<forall>http \<in> set (take 3 ?net). \<forall>s. isl (fetchJobBatch two_pages ?q http s)"
    by (simp add: fetchJobBatch_def)
  have len: "3 \<le> length ?net"
    by simp
  have e: "fetchJobBatch two_pages ?q (\<lambda>u. NoResponse) (start ?st) = Inl NetworkError
           \<and> consecutiveErrors ?st + 1 < 3"
    by (simp add: fetchJobBatch_def)
  have page: "fetchJobBatch two_pages ?q (\<lambda>u. Response 200 ''B'') (start ?st') = Inr ?batch"
    by code_simp
  have lim: "limit ?q = 0"
    by (simp add: Query_constructor_def nurse_def emptyQueryObject_def Number_or_0_def)
  have ok: "fetchJobBatch two_pages ?q (\<lambda>u. Response 200 ''B'') (start ?st') = Inr ?batch
            \<and> ?batch \<noteq> []
            \<and> \<not> (limit ?q \<noteq> 0 \<and> limit ?q \<le> int (length (allJobs ?st' @ ?batch)))"
    using page lim by simp
  note run = getJobs_three_consecutive_failures
    [where cache = "[]" and now = 0 and q = ?q and net = ?net and load = two_pages and now' = 1,
     THEN conjunct1, THEN mp, OF conjI [OF miss conjI [OF fail len]]]
  note retry = getJobs_three_consecutive_failures
    [where q = ?q and load = two_pages and http = "\<lambda>u. NoResponse" and e = NetworkError
       and st = ?st, THEN conjunct2, THEN conjunct1, THEN mp, OF e]
  note reset = getJobs_three_consecutive_failures
    [where q = ?q and load = two_pages and http = "\<lambda>u. Response 200 ''B''" and batch = ?batch
       and st = ?st', THEN conjunct2, THEN conjunct2, THEN conjunct2, THEN conjunct1, THEN mp,
     OF ok]
  from run have 1: "\<exists>e1 e2 e3.
      getJobs two_pages ?q 0 1 ?net []
      = Some \<lparr> returned = Inr [], cache_after = [],
               events = [FetchJobBatch 0 (Inl e1), LogError 1 e1, Backoff 2000,
                         FetchJobBatch 0 (Inl e2), LogError 2 e2, Backoff 4000,
                         FetchJobBatch 0 (Inl e3), LogError 3 e3, LogMaxErrors] \<rparr>"
    by (simp add: JobCache_get_def)
  from retry have 2: "loop_body two_pages ?q (\<lambda>u. NoResponse) ?st
      = (Continue ?st', [FetchJobBatch 25 (Inl NetworkError), LogError 2 NetworkError, Backoff 4000])"
    by simp
  from reset have 3: "loop_body two_pages ?q (\<lambda>u. Response 200 ''B'') ?st'
      = (Continue \<lparr> allJobs = [job ''a1'' ''c'', job ''b1'' ''c'', job ''b2'' ''c''], start = 50,
                    consecutiveErrors = 0 \<rparr>,
         [FetchJobBatch 25 (Inr ?batch), LogFetched 2 3, Pause])"
    by simp
  from 1 2 3 show ?thesis by blast
qed


text \<open>
  Claim C4. When the cache holds an entry for the query's key that is no older than the
  TTL, \<open>getJobs\<close> returns the cached list, calls \<open>fetchJobBatch\<close> not once, and uses no
  answer of the network: the result is the same whatever the network would answer, also
  when it would answer nothing. So after a run that missed the cache and cached a
  non-empty result, a second run of the same query within the TTL returns that result
  with no request.
\<close>

theorem getJobs_cache_hit:
  "(map_of cache (url q 0) = Some item \<and> now - timestamp item \<le> TTL \<longrightarrow>
      getJobs load q now now' net cache =
        Some \<lparr> returned = Inr (data item), cache_after = cache, events = [LogCached] \<rparr>)
   \<and> (fst (JobCache_get cache now (url q 0)) = None
        \<and> getJobs load q now now' net cache = Some out
        \<and> returned out = Inr jobs \<and> jobs \<noteq> [] \<and> later - now' \<le> TTL \<longrightarrow>
      getJobs load q later later' net' (cache_after out) =
        Some \<lparr> returned = Inr jobs, cache_after = cache_after out, events = [LogCached] \<rparr>)"
proof -
  have second: "getJobs load q later later' net' (cache_after out) =
        Some \<lparr> returned = Inr jobs, cache_after = cache_after out, events = [LogCached] \<rparr>"
    if miss: "fst (JobCache_get cache now (url q 0)) = None"
      and first: "getJobs load q now now' net cache = Some out"
      and res: "returned out = Inr jobs" "jobs \<noteq> []" and ttl: "later - now' \<le> TTL"
  proof -
    from first res have
      "cache_after out = JobCache_set (snd (JobCache_get cache now (url q 0))) now' (url q 0) jobs"
      by (auto simp: getJobs_miss [OF miss] split: option.splits)
    then have "map_of (cache_after out) (url q 0) = Some \<lparr> data = jobs, timestamp = now' \<rparr>"
      by (simp add: JobCache_set_def map_of_Map_set)
    from getJobs_hit [OF this] ttl show ?thesis by simp
  qed
  show ?thesis
    using getJobs_hit [of cache q item now load now' net] second by blast
qed

theorem getJobs_cache_hit_witness:
  "getJobs two_pages (Query_constructor nurse) 10 11 []
     [(url (Query_constructor nurse) 0, \<lparr> data = [job ''a1'' ''c''], timestamp = 5 \<rparr>)]
   = Some \<lparr> returned = Inr [job ''a1'' ''c''],
            cache_after =
              [(url (Query_constructor nurse) 0, \<lparr> data = [job ''a1'' ''c''], timestamp = 5 \<rparr>)],
            events = [LogCached] \<rparr>
   \<and> getJobs two_pages (Query_constructor nurse) 0 1
       [\<lambda>u. Response 200 ''A'', \<lambda>u. Response 200 []] []
     = Some \<lparr> returned = Inr [job ''a1'' ''c'', job ''a2'' ''c''],
              cache_after =
                [(url (Query_constructor nurse) 0,
                  \<lparr> data = [job ''a1'' ''c'', job ''a2'' ''c''], timestamp = 1 \<rparr>)],
              events = [FetchJobBatch 0 (Inr [job ''a1'' ''c'', job ''a2'' ''c'']), LogFetched 2 2,
                        Pause, FetchJobBatch 25 (Inr [])] \<rparr>
   \<and> getJobs two_pages (Query_constructor nurse) 3600001 3600002 []
       [(url (Query_constructor nurse) 0,
         \<lparr> data = [job ''a1'' ''c'', job ''a2'' ''c''], timestamp = 1 \<rparr>)]
     = Some \<lparr> returned = Inr [job ''a1'' ''c'', job ''a2'' ''c''],
              cache_after =
                [(url (Query_constructor nurse) 0,
                  \<lparr> data = [job ''a1'' ''c'', job ''a2'' ''c''], timestamp = 1 \<rparr>)],
              events = [LogCached] \<rparr>"
proof -
  let ?q = "Query_constructor nurse"
  let ?cache = "[(url ?q 0, \<lparr> data = [job ''a1'' ''c''], timestamp = 5 \<rparr>)]"
  let ?out = "\<lparr> returned = Inr [job ''a1'' ''c'', job ''a2'' ''c''],
              cache_after =
                [(url ?q 0, \<lparr> data = [job ''a1'' ''c'', job ''a2'' ''c''], timestamp = 1 \<rparr>)],
              events = [FetchJobBatch 0 (Inr [job ''a1'' ''c'', job ''a2'' ''c'']), LogFetched 2 2,
                        Pause, FetchJobBatch 25 (Inr [])] \<rparr>"
  have hit: "map_of ?cache (url ?q 0) = Some \<lparr> data = [job ''a1'' ''c''], timestamp = 5 \<rparr>
             \<and> 10 - timestamp \<lparr> data = [job ''a1'' ''c''], timestamp = 5 \<rparr> \<le> TTL"
    by (simp add: TTL_def)
  note first = getJobs_cache_hit
    [where q = ?q and cache = ?cache and now = 10 and now' = 11 and net = "[]"
       and load = two_pages and item = "\<lparr> data = [job ''a1'' ''c''], timestamp = 5 \<rparr>",
     THEN conjunct1, THEN mp, OF hit]
  have miss: "fst (JobCache_get [] 0 (url ?q 0)) = None"
    by (simp add: JobCache_get_def)
  have run: "getJobs two_pages ?q 0 1 [\<lambda>u. Response 200 ''A'', \<lambda>u. Response 200 []] []
             = Some ?out"
    by code_simp
  have again: "fst (JobCache_get [] 0 (url ?q 0)) = None
        \<and> getJobs two_pages ?q 0 1 [\<lambda>u. Response 200 ''A'', \<lambda>u. Response 200 []] [] = Some ?out
        \<and> returned ?out = Inr [job ''a1'' ''c'', job ''a2'' ''c'']
        \<and> [job ''a1'' ''c'', job ''a2'' ''c''] \<noteq> [] \<and> 3600001 - 1 \<le> TTL"
    using miss run by (simp add: TTL_def)
  note second = getJobs_cache_hit
    [where q = ?q and cache = "[]" and now = 0 and now' = 1
       and net = "[\<lambda>u. Response 200 ''A'', \<lambda>u. Response 200 []]"
       and load = two_pages and out = ?out and jobs = "[job ''a1'' ''c'', job ''a2'' ''c'']"
       and later = 3600001 and later' = 3600002 and net' = "[]",
     THEN conjunct2, THEN mp, OF again]
  from first run second show ?thesis
    by simp
qed


text \<open>
  Claim C2. With a positive limit \<open>L\<close>: a pass of the loop whose page brings the
  accumulated records to \<open>L\<close> or more leaves the loop with the first \<open>L\<close> of them, in their
  order, and these are exactly \<open>L\<close> records. A pass whose fetch succeeds leaves the loop in
  no other way than this one and the empty page. For a whole run of \<open>getJobs\<close> that missed
  the cache, the result is the first \<open>L\<close> of the fetched records; when the fetched records
  reach \<open>L\<close> the result has exactly \<open>L\<close> records and the run ends with the page that
  reached the limit, and otherwise the run ends on an empty page or on the third failure
  in a row.
\<close>

theorem getJobs_truncates_to_limit:
  "0 < limit q \<longrightarrow>
   (fetchJobBatch load q http (start st) = Inr batch \<and> batch \<noteq> []
      \<and> limit q \<le> int (length (allJobs st @ batch)) \<longrightarrow>
    fst (loop_body load q http st) = Break (take (nat (limit q)) (allJobs st @ batch))
    \<and> int (length (take (nat (limit q)) (allJobs st @ batch))) = limit q)
   \<and> (fetchJobBatch load q http (start st) = Inr batch
      \<and> fst (loop_body load q http st) = Break r \<longrightarrow>
    (batch = [] \<and> r = allJobs st)
    \<or> (batch \<noteq> [] \<and> limit q \<le> int (length (allJobs st @ batch))
        \<and> r = take (nat (limit q)) (allJobs st @ batch)))
   \<and> (fst (JobCache_get cache now (url q 0)) = None
      \<and> getJobs load q now now' net cache = Some out \<longrightarrow>
    returned out = Inr (take (nat (limit q)) (fetched (events out)))
    \<and> (limit q \<le> int (length (fetched (events out))) \<longrightarrow>
         (\<exists>jobs. returned out = Inr jobs \<and> int (length jobs) = limit q)
         \<and> (\<exists>n m. last (events out) = LogFetched n m))
    \<and> (int (length (fetched (events out))) < limit q \<longrightarrow>
         last (events out) = LogMaxErrors
         \<or> (\<exists>s. last (events out) = FetchJobBatch s (Inr []))))"
proof
  assume L: "0 < limit q"
  have a: "fetchJobBatch load q http (start st) = Inr batch \<and> batch \<noteq> []
      \<and> limit q \<le> int (length (allJobs st @ batch)) \<longrightarrow>
    fst (loop_body load q http st) = Break (take (nat (limit q)) (allJobs st @ batch))
    \<and> int (length (take (nat (limit q)) (allJobs st @ batch))) = limit q"
    using L by (auto simp: loop_body_ok slice0_def)
  have b: "fetchJobBatch load q http (start st) = Inr batch
      \<and> fst (loop_body load q http st) = Break r \<longrightarrow>
    (batch = [] \<and> r = allJobs st)
    \<or> (batch \<noteq> [] \<and> limit q \<le> int (length (allJobs st @ batch))
        \<and> r = take (nat (limit q)) (allJobs st @ batch))"
    using L by (auto simp: loop_body_ok slice0_def split: if_splits)
  have c: "returned out = Inr (take (nat (limit q)) (fetched (events out)))
    \<and> (limit q \<le> int (length (fetched (events out))) \<longrightarrow>
         (\<exists>jobs. returned out = Inr jobs \<and> int (length jobs) = limit q)
         \<and> (\<exists>n m. last (events out) = LogFetched n m))
    \<and> (int (length (fetched (events out))) < limit q \<longrightarrow>
         last (events out) = LogMaxErrors
         \<or> (\<exists>s. last (events out) = FetchJobBatch s (Inr [])))"
    if miss: "fst (JobCache_get cache now (url q 0)) = None"
      and run: "getJobs load q now now' net cache = Some out"
  proof -
    from run obtain jobs evs where
      w: "while_hasMore load q net \<lparr> allJobs = [], start = 0, consecutiveErrors = 0 \<rparr>
          = Some (jobs, evs)"
      and out: "returned out = Inr jobs" "events out = evs"
      by (auto simp: getJobs_miss [OF miss] split: option.splits)
    note r = while_hasMore_result [OF w]
    from r L have 1: "jobs = take (nat (limit q)) (fetched evs)"
      by simp
    from r L have 2: "(\<exists>n m. last evs = LogFetched n m) \<or> int (length (fetched evs)) < limit q"
      by simp
    from r have 3: "last evs = LogMaxErrors \<or> (\<exists>s. last evs = FetchJobBatch s (Inr []))
        \<or> (\<exists>n m. last evs = LogFetched n m \<and> limit q \<le> int (length (fetched evs)))"
      by auto
    have 4: "limit q \<le> int (length (fetched evs)) \<Longrightarrow> int (length jobs) = limit q"
      using L by (simp add: 1)
    show ?thesis
      unfolding out using 1 2 3 4 by auto
  qed
  from a b c show "(fetchJobBatch load q http (start st) = Inr batch \<and> batch \<noteq> []
      \<and> limit q \<le> int (length (allJobs st @ batch)) \<longrightarrow>
    fst (loop_body load q http st) = Break (take (nat (limit q)) (allJobs st @ batch))
    \<and> int (length (take (nat (limit q)) (allJobs st @ batch))) = limit q)
   \<and> (fetchJobBatch load q http (start st) = Inr batch
      \<and> fst (loop_body load q http st) = Break r \<longrightarrow>
    (batch = [] \<and> r = allJobs st)
    \<or> (batch \<noteq> [] \<and> limit q \<le> int (length (allJobs st @ batch))
        \<and> r = take (nat (limit q)) (allJobs st @ batch)))
   \<and> (fst (JobCache_get cache now (url q 0)) = None
      \<and> getJobs load q now now' net cache = Some out \<longrightarrow>
    returned out = Inr (take (nat (limit q)) (fetched (events out)))
    \<and> (limit q \<le> int (length (fetched (events out))) \<longrightarrow>
         (\<exists>jobs. returned out = Inr jobs \<and> int (length jobs) = limit q)
         \<and> (\<exists>n m. last (events out) = LogFetched n m))
    \<and> (int (length (fetched (events out))) < limit q \<longrightarrow>
         last (events out) = LogMaxErrors
         \<or> (\<exists>s. last (events out) = FetchJobBatch s (Inr []))))"
    by blast
qed

theorem getJobs_truncates_to_limit_witness:
  "getJobs two_pages (Query_constructor (nurse \<lparr> qo_limit := Some (Num 3) \<rparr>)) 0 1
     [\<lambda>u. Response 200 ''A'', \<lambda>u. Response 200 ''B''] []
   = Some \<lparr> returned = Inr [job ''a1'' ''c'', job ''a2'' ''c'', job ''b1'' ''c''],
            cache_after =
              [(url (Query_constructor (nurse \<lparr> qo_limit := Some (Num 3) \<rparr>)) 0,
                \<lparr> data = [job ''a1'' ''c'', job ''a2'' ''c'', job ''b1'' ''c''], timestamp = 1 \<rparr>)],
            events = [FetchJobBatch 0 (Inr [job ''a1'' ''c'', job ''a2'' ''c'']), LogFetched 2 2,
                      Pause,
                      FetchJobBatch 25 (Inr [job ''b1'' ''c'', job ''b2'' ''c'']),
                      LogFetched 2 4] \<rparr>
   \<and> take 3 (fetched [FetchJobBatch 0 (Inr [job ''a1'' ''c'', job ''a2'' ''c'']), LogFetched 2 2,
                       Pause,
                       FetchJobBatch 25 (Inr [job ''b1'' ''c'', job ''b2'' ''c'']),
                       LogFetched 2 4])
     = [job ''a1'' ''c'', job ''a2'' ''c'', job ''b1'' ''c'']"
proof -
  let ?q = "Query_constructor (nurse \<lparr> qo_limit := Some (Num 3) \<rparr>)"
  let ?net = "[\<lambda>u. Response 200 ''A'', \<lambda>u. Response 200 ''B''] :: Http list"
  let ?evs = "[FetchJobBatch 0 (Inr [job ''a1'' ''c'', job ''a2'' ''c'']), LogFetched 2 2,
               Pause,
               FetchJobBatch 25 (Inr [job ''b1'' ''c'', job ''b2'' ''c'']),
               LogFetched 2 4]"
  let ?out = "\<lparr> returned = Inr [job ''a1'' ''c'', job ''a2'' ''c'', job ''b1'' ''c''],
            cache_after =
              [(url ?q 0,
                \<lparr> data = [job ''a1'' ''c'', job ''a2'' ''c'', job ''b1'' ''c''], timestamp = 1 \<rparr>)],
            events = ?evs \<rparr>"
  have L: "0 < limit ?q" "nat (limit ?q) = 3"
    by (simp_all add: Query_constructor_def nurse_def Number_or_0_def)
  have miss: "fst (JobCache_get [] 0 (url ?q 0)) = None"
    by (simp add: JobCache_get_def)
  have run: "getJobs two_pages ?q 0 1 ?net [] = Some ?out"
    by code_simp
  note inst = getJobs_truncates_to_limit
    [where q = ?q and cache = "[]" and now = 0 and now' = 1 and net = ?net and load = two_pages
       and out = ?out, THEN mp, OF L(1), THEN conjunct2, THEN conjunct2, THEN mp,
     OF conjI [OF miss run], THEN conjunct1]
  from inst run show ?thesis
    by (simp add: L(2))
qed


text \<open>
  Claim C10. A query built with the limit absent, zero or \<open>NaN\<close> has limit 0. With limit
  0 a pass of the loop whose page is not empty never leaves the loop and keeps the whole
  page, and a run of \<open>getJobs\<close> that missed the cache returns all the fetched records,
  none cut off, and ends on an empty page or on the third failure in a row.
\<close>

theorem getJobs_without_limit:
  "(qo_limit qo = None \<or> qo_limit qo = Some NaN \<or> qo_limit qo = Some (Num 0) \<longrightarrow>
      limit (Query_constructor qo) = 0)
   \<and> (limit q = 0 \<and> fetchJobBatch load q http (start st) = Inr batch \<and> batch \<noteq> [] \<longrightarrow>
        fst (loop_body load q http st) =
          Continue \<lparr> allJobs = allJobs st @ batch, start = start st + 25,
                     consecutiveErrors = 0 \<rparr>)
   \<and> (limit q = 0 \<and> fst (JobCache_get cache now (url q 0)) = None
        \<and> getJobs load q now now' net cache = Some out \<longrightarrow>
        returned out = Inr (fetched (events out))
        \<and> (last (events out) = LogMaxErrors
            \<or> (\<exists>s. last (events out) = FetchJobBatch s (Inr []))))"
proof -
  have a: "qo_limit qo = None \<or> qo_limit qo = Some NaN \<or> qo_limit qo = Some (Num 0) \<longrightarrow>
      limit (Query_constructor qo) = 0"
    by (auto simp: Query_constructor_def Number_or_0_def)
  have b: "limit q = 0 \<and> fetchJobBatch load q http (start st) = Inr batch \<and> batch \<noteq> [] \<longrightarrow>
        fst (loop_body load q http st) =
          Continue \<lparr> allJobs = allJobs st @ batch, start = start st + 25,
                     consecutiveErrors = 0 \<rparr>"
    by (simp add: loop_body_ok)
  have c: "returned out = Inr (fetched (events out))
        \<and> (last (events out) = LogMaxErrors
            \<or> (\<exists>s. last (events out) = FetchJobBatch s (Inr [])))"
    if L: "limit q = 0" and miss: "fst (JobCache_get cache now (url q 0)) = None"
      and run: "getJobs load q now now' net cache = Some out"
  proof -
    from run obtain jobs evs where
      w: "while_hasMore load q net \<lparr> allJobs = [], start = 0, consecutiveErrors = 0 \<rparr>
          = Some (jobs, evs)"
      and out: "returned out = Inr jobs" "events out = evs"
      by (auto simp: getJobs_miss [OF miss] split: option.splits)
    show ?thesis
      unfolding out using while_hasMore_result [OF w] L by auto
  qed
  from a b c show ?thesis by blast
qed

theorem getJobs_without_limit_witness:
  "limit (Query_constructor nurse) = 0
   \<and> getJobs two_pages (Query_constructor nurse) 0 1
       [\<lambda>u. Response 200 ''A'', \<lambda>u. NoResponse, \<lambda>u. Response 200 ''B'', \<lambda>u. Response 200 []] []
     = Some \<lparr> returned = Inr [job ''a1'' ''c'', job ''a2'' ''c'', job ''b1'' ''c'', job ''b2'' ''c''],
              cache_after =
                [(url (Query_constructor nurse) 0,
                  \<lparr> data = [job ''a1'' ''c'', job ''a2'' ''c'', job ''b1'' ''c'', job ''b2'' ''c''],
                    timestamp = 1 \<rparr>)],
              events = [FetchJobBatch 0 (Inr [job ''a1'' ''c'', job ''a2'' ''c'']), LogFetched 2 2,
                        Pause,
                        FetchJobBatch 25 (Inl NetworkError), LogError 1 NetworkError,
                        Backoff 2000,
                        FetchJobBatch 25 (Inr [job ''b1'' ''c'', job ''b2'' ''c'']),
                        LogFetched 2 4, Pause,
                        FetchJobBatch 50 (Inr [])] \<rparr>
   \<and> fetched [FetchJobBatch 0 (Inr [job ''a1'' ''c'', job ''a2'' ''c'']), LogFetched 2 2,
               Pause,
               FetchJobBatch 25 (Inl NetworkError), LogError 1 NetworkError,
               Backoff 2000,
               FetchJobBatch 25 (Inr [job ''b1'' ''c'', job ''b2'' ''c'']),
               LogFetched 2 4, Pause,
               FetchJobBatch 50 (Inr [])]
     = [job ''a1'' ''c'', job ''a2'' ''c'', job ''b1'' ''c'', job ''b2'' ''c'']"
proof -
  let ?q = "Query_constructor nurse"
  let ?net = "[\<lambda>u. Response 200 ''A'', \<lambda>u. NoResponse, \<lambda>u. Response 200 ''B'',
               \<lambda>u. Response 200 []] :: Http list"
  let ?evs = "[FetchJobBatch 0 (Inr [job ''a1'' ''c'', job ''a2'' ''c'']), LogFetched 2 2,
               Pause,
               FetchJobBatch 25 (Inl NetworkError), LogError 1 NetworkError,
               Backoff 2000,
               FetchJobBatch 25 (Inr [job ''b1'' ''c'', job ''b2'' ''c'']),
               LogFetched 2 4, Pause,
               FetchJobBatch 50 (Inr [])]"
  let ?out = "\<lparr> returned = Inr [job ''a1'' ''c'', job ''a2'' ''c'', job ''b1'' ''c'', job ''b2'' ''c''],
              cache_after =
                [(url ?q 0,
                  \<lparr> data = [job ''a1'' ''c'', job ''a2'' ''c'', job ''b1'' ''c'', job ''b2'' ''c''],
                    timestamp = 1 \<rparr>)],
              events = ?evs \<rparr>"
  have absent: "qo_limit nurse = None \<or> qo_limit nurse = Some NaN \<or> qo_limit nurse = Some (Num 0)"
    by (simp add: nurse_def emptyQueryObject_def)
  note zero = getJobs_without_limit [where qo = nurse, THEN conjunct1, THEN mp, OF absent]
  have miss: "fst (JobCache_get [] 0 (url ?q 0)) = None"
    by (simp add: JobCache_get_def)
  have run: "getJobs two_pages ?q 0 1 ?net [] = Some ?out"
    by code_simp
  note inst = getJobs_without_limit
    [where q = ?q and cache = "[]" and now = 0 and now' = 1 and net = ?net and load = two_pages
       and out = ?out, THEN conjunct2, THEN conjunct2, THEN mp,
     OF conjI [OF zero conjI [OF miss run]], THEN conjunct1]
  from inst run zero show ?thesis
    by simp
qed

section \<open>The request URL determines what it is built from\<close>

lemma split_at_first:
  "c \<notin> set a \<Longrightarrow> c \<notin> set a' \<Longrightarrow> a @ c # s = a' @ c # s' \<Longrightarrow> a = a' \<and> s = s'"
proof (induction a arbitrary: a')
  case Nil
  then show ?case by (cases a') auto
next
  case (Cons x a)
  then show ?case by (cases a') auto
qed

lemma split_at_last:
  assumes "c \<notin> set s" "c \<notin> set s'" "a @ c # s = a' @ c # s'"
  shows "a = a' \<and> s = s'"
proof -
  have "rev s @ c # rev a = rev s' @ c # rev a'"
    using assms(3) by (metis rev.simps(2) rev_append append_assoc append_Cons append_Nil)
  then have "rev s = rev s' \<and> rev a = rev a'"
    using assms(1,2) by (intro split_at_first [of c]) simp_all
  then show ?thesis by simp
qed

lemma of_char_hex_digit:
  "n < 16 \<Longrightarrow> (of_char (hex_digit n) :: nat) = (if n < 10 then 48 + n else 55 + n)"
  by (simp add: hex_digit_def)

lemma hex_digit_inj: "n < 16 \<Longrightarrow> m < 16 \<Longrightarrow> hex_digit n = hex_digit m \<Longrightarrow> n = m"
proof -
  assume n: "n < 16" and m: "m < 16" and eq: "hex_digit n = hex_digit m"
  from eq have "(of_char (hex_digit n) :: nat) = of_char (hex_digit m)" by simp
  then show ?thesis
    using n m by (simp add: of_char_hex_digit split: if_splits)
qed

lemma unreserved_hex_digit: "n < 16 \<Longrightarrow> unreserved (hex_digit n)"
  by (simp add: unreserved_def of_char_hex_digit Let_def)

lemma not_unreserved [simp]:
  "\<not> unreserved (CHR ''%'')" "\<not> unreserved (CHR ''+'')" "\<not> unreserved (CHR ''&'')"
  "\<not> unreserved (CHR ''='')" "\<not> unreserved (CHR ''?'')" "\<not> unreserved (CHR '' '')"
  by (simp_all add: unreserved_def)

lemma encode_byte_chars:
  "c \<in> set (encode_byte b) \<Longrightarrow> unreserved c \<or> c = CHR ''+'' \<or> c = CHR ''%''"
proof -
  have "(of_char b :: nat) div 16 < 16" "(of_char b :: nat) mod 16 < 16"
    by (simp_all add: less_mult_imp_div_less)
  then have "unreserved (hex_digit ((of_char b :: nat) div 16))"
    "unreserved (hex_digit ((of_char b :: nat) mod 16))"
    by (simp_all add: unreserved_hex_digit)
  moreover assume "c \<in> set (encode_byte b)"
  ultimately show ?thesis
    by (auto simp: encode_byte_def split: if_splits)
qed

lemma urlencode_chars:
  "c \<in> set (urlencode s) \<Longrightarrow> unreserved c \<or> c = CHR ''+'' \<or> c = CHR ''%''"
  using encode_byte_chars by (auto simp: urlencode_def)

lemma urlencode_separators [simp]:
  "CHR ''&'' \<notin> set (urlencode s)" "CHR ''='' \<notin> set (urlencode s)"
  "CHR ''?'' \<notin> set (urlencode s)"
  using urlencode_chars [of "CHR ''&''" s] urlencode_chars [of "CHR ''=''" s]
    urlencode_chars [of "CHR ''?''" s]
  by auto

lemma encode_byte_prefix_free:
  assumes "encode_byte a @ r = encode_byte b @ r'"
  shows "a = b \<and> r = r'"
proof -
  have lt: "(of_char a :: nat) div 16 < 16" "(of_char a :: nat) mod 16 < 16"
    "(of_char b :: nat) div 16 < 16" "(of_char b :: nat) mod 16 < 16"
    by (simp_all add: less_mult_imp_div_less)
  consider (u) "unreserved a" | (s) "\<not> unreserved a" "a = CHR '' ''"
    | (p) "\<not> unreserved a" "a \<noteq> CHR '' ''" by blast
  then show ?thesis
  proof cases
    case u
    with assms show ?thesis
      by (auto simp: encode_byte_def split: if_splits)
  next
    case s
    with assms show ?thesis
      by (auto simp: encode_byte_def split: if_splits)
  next
    case p
    show ?thesis
    proof (cases "unreserved b \<or> b = CHR '' ''")
      case True
      with p assms show ?thesis
        by (auto simp: encode_byte_def split: if_splits)
    next
      case False
      with p assms have h: "hex_digit ((of_char a :: nat) div 16) = hex_digit ((of_char b :: nat) div 16)"
        "hex_digit ((of_char a :: nat) mod 16) = hex_digit ((of_char b :: nat) mod 16)" "r = r'"
        by (simp_all add: encode_byte_def)
      have "(of_char a :: nat) div 16 = (of_char b :: nat) div 16"
        "(of_char a :: nat) mod 16 = (of_char b :: nat) mod 16"
        using hex_digit_inj [OF lt(1) lt(3) h(1)] hex_digit_inj [OF lt(2) lt(4) h(2)] by simp_all
      then have "(of_char a :: nat) = of_char b"
        by (metis div_mult_mod_eq)
      then show ?thesis
        using h(3) by simp
    qed
  qed
qed

lemma encode_byte_not_Nil: "encode_byte a \<noteq> []"
  by (simp add: encode_byte_def)

lemma urlencode_inj: "urlencode xs = urlencode ys \<Longrightarrow> xs = ys"
proof (induction xs arbitrary: ys)
  case Nil
  then show ?case
    by (cases ys) (simp_all add: urlencode_def encode_byte_not_Nil)
next
  case (Cons x xs)
  show ?case
  proof (cases ys)
    case Nil
    with Cons.prems show ?thesis
      by (simp add: urlencode_def encode_byte_not_Nil)
  next
    case (Cons y ys')
    with Cons.prems have "encode_byte x @ urlencode xs = encode_byte y @ urlencode ys'"
      by (simp add: urlencode_def)
    from encode_byte_prefix_free [OF this] Cons.IH Cons show ?thesis
      by simp
  qed
qed

lemma digits_not_Nil: "digits n \<noteq> []"
  by (subst digits.simps) simp

lemma digit_char_inj: "n < 10 \<Longrightarrow> m < 10 \<Longrightarrow> digit_char n = digit_char m \<Longrightarrow> n = m"
proof -
  assume n: "n < 10" and m: "m < 10" and eq: "digit_char n = digit_char m"
  from eq have "(of_char (digit_char n) :: nat) = of_char (digit_char m)" by simp
  then show ?thesis
    using n m by (simp add: digit_char_def)
qed

lemma digits_inj: "digits n = digits m \<Longrightarrow> n = m"
proof (induction n arbitrary: m rule: digits.induct)
  case (1 n)
  show ?case
  proof (cases "n < 10")
    case n: True
    show ?thesis
    proof (cases "m < 10")
      case True
      with n "1.prems" show ?thesis
        using digit_char_inj [of n m] by (simp add: digits.simps [of n] digits.simps [of m])
    next
      case False
      with n "1.prems" show ?thesis
        using digits_not_Nil [of "m div 10"]
        by (simp add: digits.simps [of n] digits.simps [of m])
    qed
  next
    case n: False
    show ?thesis
    proof (cases "m < 10")
      case True
      with n "1.prems" show ?thesis
        using digits_not_Nil [of "n div 10"]
        by (simp add: digits.simps [of n] digits.simps [of m])
    next
      case False
      with n "1.prems" have "digits (n div 10) = digits (m div 10)"
        "digit_char (n mod 10) = digit_char (m mod 10)"
        by (simp_all add: digits.simps [of n] digits.simps [of m])
      then have "n div 10 = m div 10" "n mod 10 = m mod 10"
        using "1.IH" [OF n] digit_char_inj [of "n mod 10" "m mod 10"] by simp_all
      then show ?thesis
        by (metis div_mult_mod_eq)
    qed
  qed
qed

lemma digits_no_minus: "CHR ''-'' \<notin> set (digits n)"
proof (induction n rule: digits.induct)
  case (1 n)
  have d: "digit_char k \<noteq> CHR ''-''" if "k < 10" for k
  proof
    assume "digit_char k = CHR ''-''"
    then have "(of_char (digit_char k) :: nat) = of_char (CHR ''-'')" by simp
    with that show False by (simp add: digit_char_def)
  qed
  show ?case
  proof (cases "n < 10")
    case True
    then show ?thesis using d [of n] by (simp add: digits.simps [of n])
  next
    case False
    then show ?thesis
      using "1.IH" d [of "n mod 10"] by (simp add: digits.simps [of n])
  qed
qed

lemma Number_toString_inj: "Number_toString i = Number_toString j \<Longrightarrow> i = j"
proof -
  assume eq: "Number_toString i = Number_toString j"
  have minus: "CHR ''-'' # xs \<noteq> digits n" for xs n
    using digits_no_minus [of n] by (metis list.set_intros(1))
  show ?thesis
  proof (cases "i < 0")
    case i: True
    show ?thesis
    proof (cases "j < 0")
      case True
      with i eq have "nat (- i) = nat (- j)"
        by (simp add: Number_toString_def digits_inj)
      with i True show ?thesis by simp
    next
      case False
      with i eq minus show ?thesis
        by (simp add: Number_toString_def)
    qed
  next
    case i: False
    show ?thesis
    proof (cases "j < 0")
      case True
      with i eq minus [of "digits (nat (- j))" "nat i"] show ?thesis
        by (simp add: Number_toString_def)
    next
      case False
      with i eq have "nat i = nat j"
        by (simp add: Number_toString_def digits_inj)
      with i False show ?thesis by simp
    qed
  qed
qed

lemma Number_toString_not_Nil: "Number_toString i \<noteq> []"
  by (simp add: Number_toString_def digits_not_Nil)

lemma join_amp_Cons:
  "xs \<noteq> [] \<Longrightarrow> join_amp (x # xs) = x @ CHR ''&'' # join_amp xs"
  by (cases xs) simp_all

lemma join_amp_inj:
  assumes "\<forall>x \<in> set xs. CHR ''&'' \<notin> set x" "\<forall>y \<in> set ys. CHR ''&'' \<notin> set y"
    and "xs \<noteq> []" "ys \<noteq> []" "join_amp xs = join_amp ys"
  shows "xs = ys"
  using assms
proof (induction xs arbitrary: ys)
  case Nil
  then show ?case by simp
next
  case (Cons x xs)
  from Cons.prems(4) obtain y ys' where ys: "ys = y # ys'" by (cases ys) auto
  from Cons.prems(1,2) ys have amp: "CHR ''&'' \<notin> set x" "CHR ''&'' \<notin> set y" by simp_all
  show ?case
  proof (cases "xs = []")
    case x1: True
    show ?thesis
    proof (cases "ys' = []")
      case True
      with x1 ys Cons.prems(5) show ?thesis by simp
    next
      case False
      with x1 ys Cons.prems(5) have "x = y @ CHR ''&'' # join_amp ys'"
        by (simp add: join_amp_Cons)
      with amp show ?thesis by auto
    qed
  next
    case x2: False
    show ?thesis
    proof (cases "ys' = []")
      case True
      with x2 ys Cons.prems(5) have "y = x @ CHR ''&'' # join_amp xs"
        by (simp add: join_amp_Cons)
      with amp show ?thesis by auto
    next
      case False
      with x2 ys Cons.prems(5) have "x @ CHR ''&'' # join_amp xs = y @ CHR ''&'' # join_amp ys'"
        by (simp add: join_amp_Cons)
      from split_at_first [OF amp this] have "x = y" "join_amp xs = join_amp ys'"
        by simp_all
      moreover have "xs = ys'"
        using Cons.IH [of ys'] Cons.prems(1,2) ys x2 False \<open>join_amp xs = join_amp ys'\<close>
        by simp
      ultimately show ?thesis by (simp add: ys)
    qed
  qed
qed

lemma join_amp_chars:
  "c \<in> set (join_amp xs) \<Longrightarrow> c = CHR ''&'' \<or> (\<exists>x \<in> set xs. c \<in> set x)"
  by (induction xs rule: join_amp.induct) auto

lemma segment_inj:
  assumes "urlencode k @ CHR ''='' # urlencode v = urlencode k' @ CHR ''='' # urlencode v'"
  shows "k = k' \<and> v = v'"
proof -
  have "urlencode k = urlencode k' \<and> urlencode v = urlencode v'"
    by (rule split_at_first [OF _ _ assms]) simp_all
  then show ?thesis
    by (simp add: urlencode_inj)
qed

lemma URLSearchParams_toString_inj:
  assumes "ps \<noteq> []" "ps' \<noteq> []"
    and "URLSearchParams_toString ps = URLSearchParams_toString ps'"
  shows "ps = ps'"
proof -
  let ?seg = "\<lambda>(name, val). urlencode name @ CHR ''='' # urlencode val"
  have amp: "\<forall>x \<in> set (map ?seg qs). CHR ''&'' \<notin> set x" for qs
    by auto
  have "map ?seg ps = map ?seg ps'"
    using assms amp [of ps] amp [of ps']
    by (intro join_amp_inj) (simp_all add: URLSearchParams_toString_def)
  moreover have "inj ?seg"
    by (rule injI) (auto dest: segment_inj)
  ultimately show ?thesis
    by (simp add: inj_map_eq_map)
qed

lemma URLSearchParams_toString_no_question:
  "CHR ''?'' \<notin> set (URLSearchParams_toString ps)"
proof
  assume "CHR ''?'' \<in> set (URLSearchParams_toString ps)"
  from join_amp_chars [OF this [unfolded URLSearchParams_toString_def]]
  show False by auto
qed

lemma append_param_if: "(if c then append_param ps k v else ps) = ps @ (if c then [(k, v)] else [])"
  by (simp add: append_param_def)

lemma filter_Cons_if: "filter P (x # xs) = (if P x then [x] else []) @ filter P xs"
  by simp

lemma url_params:
  "url q s =
     ''https://'' @ host q @ ''/jobs-guest/jobs/api/seeMoreJobPostings/search?'' @
     URLSearchParams_toString
       (filter (\<lambda>(k, v). v \<noteq> [])
          [(''keywords'', keyword q), (''location'', location q),
           (''f_TPR'', getDateSincePosted q), (''f_SB2'', getSalary q),
           (''f_E'', getExperienceLevel q), (''f_WT'', getRemoteFilter q),
           (''f_JT'', getJobType q), (''start'', Number_toString (s + getPage q)),
           (''sortBy'', if sortBy q = ''recent'' then ''DD''
                        else if sortBy q = ''relevant'' then ''R'' else [])])"
proof -
  have sort: "(if sortBy q = ''recent'' then append_param ps ''sortBy'' ''DD''
               else if sortBy q = ''relevant'' then append_param ps ''sortBy'' ''R'' else ps)
              = ps @ (if (if sortBy q = ''recent'' then ''DD''
                          else if sortBy q = ''relevant'' then ''R'' else []) \<noteq> []
                      then [(''sortBy'', if sortBy q = ''recent'' then ''DD''
                                         else if sortBy q = ''relevant'' then ''R'' else [])]
                      else [])" for ps
    by (simp add: append_param_def)
  have offset: "append_param ps ''start'' (Number_toString i)
               = ps @ (if Number_toString i \<noteq> [] then [(''start'', Number_toString i)] else [])"
    for ps i
    by (simp add: append_param_def Number_toString_not_Nil)
  show ?thesis
    unfolding url_def Let_def sort
    unfolding offset append_param_if filter_Cons_if filter.simps(1) prod.case
    by (simp only: append_assoc append_Nil append_Nil2)
qed

lemma map_of_filter_nonempty:
  "distinct (map fst ps) \<Longrightarrow>
   map_of (filter (\<lambda>(k, v). v \<noteq> []) ps) k
     = (case map_of ps k of None \<Rightarrow> None | Some v \<Rightarrow> if v \<noteq> [] then Some v else None)"
proof (induction ps)
  case Nil
  then show ?case by simp
next
  case (Cons p ps)
  obtain a b where p: "p = (a, b)" by (cases p)
  from Cons.prems p have "map_of ps a = None"
    by (simp add: map_of_eq_None_iff)
  with Cons p show ?case
    by (cases "k = a") simp_all
qed

lemma nonempty_value_eq:
  "(if v \<noteq> [] then Some v else None) = (if v' \<noteq> [] then Some v' else None) \<Longrightarrow> v = v'"
  for v v' :: string
  by (cases "v = []"; cases "v' = []") simp_all

lemma url_eq_iff:
  "url q s = url q' s \<longleftrightarrow>
     host q = host q' \<and> keyword q = keyword q' \<and> location q = location q'
     \<and> getDateSincePosted q = getDateSincePosted q' \<and> getSalary q = getSalary q'
     \<and> getExperienceLevel q = getExperienceLevel q' \<and> getRemoteFilter q = getRemoteFilter q'
     \<and> getJobType q = getJobType q' \<and> page q = page q'
     \<and> (sortBy q = ''recent'' \<longleftrightarrow> sortBy q' = ''recent'')
     \<and> (sortBy q = ''relevant'' \<longleftrightarrow> sortBy q' = ''relevant'')"
  (is "?L \<longleftrightarrow> ?R")
proof
  assume ?R
  then show ?L
    by (simp add: url_params getPage_def)
next
  assume eq: ?L
  let ?P = "\<lambda>q. [(''keywords'', keyword q), (''location'', location q),
           (''f_TPR'', getDateSincePosted q), (''f_SB2'', getSalary q),
           (''f_E'', getExperienceLevel q), (''f_WT'', getRemoteFilter q),
           (''f_JT'', getJobType q), (''start'', Number_toString (s + getPage q)),
           (''sortBy'', if sortBy q = ''recent'' then ''DD''
                        else if sortBy q = ''relevant'' then ''R'' else [])]"
  let ?F = "\<lambda>q. filter (\<lambda>(k, v). v \<noteq> []) (?P q)"
  let ?path = "''/jobs-guest/jobs/api/seeMoreJobPostings/search''"
  have u: "url r s = (''https://'' @ host r @ ?path) @ CHR ''?'' # URLSearchParams_toString (?F r)"
    for r
    by (simp add: url_params)
  from eq have "(''https://'' @ host q @ ?path) @ CHR ''?'' # URLSearchParams_toString (?F q)
      = (''https://'' @ host q' @ ?path) @ CHR ''?'' # URLSearchParams_toString (?F q')"
    by (simp only: u)
  from split_at_last [OF URLSearchParams_toString_no_question
      URLSearchParams_toString_no_question this]
  have h: "''https://'' @ host q @ ?path = ''https://'' @ host q' @ ?path"
    and t: "URLSearchParams_toString (?F q) = URLSearchParams_toString (?F q')"
    by blast+
  from h have host: "host q = host q'"
    by simp
  have ne: "?F r \<noteq> []" for r
  proof -
    have "(''start'', Number_toString (s + getPage r)) \<in> set (?F r)"
      by (simp add: Number_toString_not_Nil)
    then show ?thesis
      by (metis empty_iff empty_set)
  qed
  have F: "?F q = ?F q'"
    by (rule URLSearchParams_toString_inj [OF ne ne t])
  have d: "distinct (map fst (?P r))" for r
    by simp
  have v: "(case map_of (?P q) k of None \<Rightarrow> None | Some v \<Rightarrow> if v \<noteq> [] then Some v else None)
         = (case map_of (?P q') k of None \<Rightarrow> None | Some v \<Rightarrow> if v \<noteq> [] then Some v else None)"
    for k
    using arg_cong [OF F, of "\<lambda>ps. map_of ps k"]
    by (simp only: map_of_filter_nonempty [OF d])
  have "keyword q = keyword q'"
    using v [of "''keywords''"] by (intro nonempty_value_eq) simp
  moreover have "location q = location q'"
    using v [of "''location''"] by (intro nonempty_value_eq) simp
  moreover have "getDateSincePosted q = getDateSincePosted q'"
    using v [of "''f_TPR''"] by (intro nonempty_value_eq) simp
  moreover have "getSalary q = getSalary q'"
    using v [of "''f_SB2''"] by (intro nonempty_value_eq) simp
  moreover have "getExperienceLevel q = getExperienceLevel q'"
    using v [of "''f_E''"] by (intro nonempty_value_eq) simp
  moreover have "getRemoteFilter q = getRemoteFilter q'"
    using v [of "''f_WT''"] by (intro nonempty_value_eq) simp
  moreover have "getJobType q = getJobType q'"
    using v [of "''f_JT''"] by (intro nonempty_value_eq) simp
  moreover have "Number_toString (s + getPage q) = Number_toString (s + getPage q')"
    using v [of "''start''"] by (intro nonempty_value_eq) simp
  then have "page q = page q'"
    by (auto dest!: Number_toString_inj simp: getPage_def)
  moreover have "(if sortBy q = ''recent'' then ''DD''
                  else if sortBy q = ''relevant'' then ''R'' else [])
               = (if sortBy q' = ''recent'' then ''DD''
                  else if sortBy q' = ''relevant'' then ''R'' else [])"
    using v [of "''sortBy''"] by (intro nonempty_value_eq) simp
  then have "(sortBy q = ''recent'' \<longleftrightarrow> sortBy q' = ''recent'')
     \<and> (sortBy q = ''relevant'' \<longleftrightarrow> sortBy q' = ''relevant'')"
    by (auto split: if_splits)
  ultimately show ?R
    using host by blast
qed




section \<open>Filter values and the parameters of the URL\<close>

lemma lower_ascii_idem: "lower_ascii (lower_ascii c) = lower_ascii c"
proof -
  have "(of_char (char_of (n + 32 :: nat)) :: nat) = n + 32" if "n \<le> 90" for n
    using that by simp
  then show ?thesis
    by (auto simp: lower_ascii_def)
qed

lemma lower_ascii_high: "128 \<le> (of_char (lower_ascii c) :: nat) \<Longrightarrow> lower_ascii c = c"
proof -
  have "(of_char (char_of (n + 32 :: nat)) :: nat) = n + 32" if "n \<le> 90" for n
    using that by simp
  then show "128 \<le> (of_char (lower_ascii c) :: nat) \<Longrightarrow> lower_ascii c = c"
    by (auto simp: lower_ascii_def split: if_splits)
qed

lemma toLowerCase_other:
  "take 3 (a # s) \<noteq> [CHR 0xE2, CHR 0x84, CHR 0xAA] \<Longrightarrow>
   toLowerCase (a # s) = lower_ascii a # toLowerCase s"
  by (cases "(a # s)" rule: toLowerCase.cases) auto

lemma toLowerCase_hd:
  assumes eq: "toLowerCase s = x # t" and hi: "128 \<le> (of_char x :: nat)"
  shows "s = x # tl s \<and> t = toLowerCase (tl s)"
proof (cases s)
  case Nil
  with eq show ?thesis by simp
next
  case (Cons a s')
  show ?thesis
  proof (cases "take 3 (a # s') = [CHR 0xE2, CHR 0x84, CHR 0xAA]")
    case True
    then obtain r where "a # s' = CHR 0xE2 # CHR 0x84 # CHR 0xAA # r"
      by (cases s'; cases "tl s'") (auto split: if_splits)
    with eq Cons have "x = CHR ''k''" by simp
    with hi show ?thesis by simp
  next
    case False
    from toLowerCase_other [OF this] eq Cons
    have x: "x = lower_ascii a" and t: "t = toLowerCase s'"
      by simp_all
    from x hi lower_ascii_high [of a] have "x = a" by simp
    with t Cons show ?thesis by simp
  qed
qed

lemma toLowerCase_idem: "toLowerCase (toLowerCase s) = toLowerCase s"
proof (induction s rule: toLowerCase.induct)
  case (1 a b c s)
  show ?case
  proof (cases "a = CHR 0xE2 \<and> b = CHR 0x84 \<and> c = CHR 0xAA")
    case True
    then have "toLowerCase (a # b # c # s) = CHR ''k'' # toLowerCase s" by simp
    moreover have "toLowerCase (CHR ''k'' # toLowerCase s) = CHR ''k'' # toLowerCase (toLowerCase s)"
      by (subst toLowerCase_other) (simp_all add: lower_ascii_def)
    ultimately show ?thesis using 1(1) [OF True] by simp
  next
    case False
    then have out: "toLowerCase (a # b # c # s) = lower_ascii a # toLowerCase (b # c # s)"
      by (simp only: toLowerCase.simps if_False)
    have no: "take 3 (lower_ascii a # toLowerCase (b # c # s)) \<noteq> [CHR 0xE2, CHR 0x84, CHR 0xAA]"
    proof
      assume k: "take 3 (lower_ascii a # toLowerCase (b # c # s)) = [CHR 0xE2, CHR 0x84, CHR 0xAA]"
      then have "lower_ascii a = CHR 0xE2" by simp
      with lower_ascii_high [of a] have a: "a = CHR 0xE2" by simp
      from k obtain t where t: "toLowerCase (b # c # s) = CHR 0x84 # t"
        by (cases "toLowerCase (b # c # s)") (auto split: if_splits)
      with k obtain t' where t': "t = CHR 0xAA # t'"
        by (cases t) (auto split: if_splits)
      from toLowerCase_hd [OF t] have b: "b = CHR 0x84" "t = toLowerCase (c # s)" by auto
      from toLowerCase_hd [of "c # s" "CHR 0xAA" t'] b(2) t' have "c = CHR 0xAA" by auto
      with a b False show False by simp
    qed
    have "toLowerCase (lower_ascii a # toLowerCase (b # c # s))
          = lower_ascii (lower_ascii a) # toLowerCase (toLowerCase (b # c # s))"
      by (rule toLowerCase_other [OF no])
    with 1(2) [OF False] out show ?thesis by (simp add: lower_ascii_idem)
  qed
qed (simp_all add: lower_ascii_idem)

lemma filter_lookup_ignores_case:
  "getDateSincePosted (q \<lparr> dateSincePosted := toLowerCase v \<rparr>)
     = getDateSincePosted (q \<lparr> dateSincePosted := v \<rparr>)"
  "getExperienceLevel (q \<lparr> experienceLevel := toLowerCase v \<rparr>)
     = getExperienceLevel (q \<lparr> experienceLevel := v \<rparr>)"
  "getJobType (q \<lparr> jobType := toLowerCase v \<rparr>) = getJobType (q \<lparr> jobType := v \<rparr>)"
  "getRemoteFilter (q \<lparr> remoteFilter := toLowerCase v \<rparr>)
     = getRemoteFilter (q \<lparr> remoteFilter := v \<rparr>)"
  by (simp_all add: getDateSincePosted_def getExperienceLevel_def getJobType_def
      getRemoteFilter_def toLowerCase_idem)

lemma filter_without_property_is_omitted:
  "property dateRange (toLowerCase (dateSincePosted q)) = None \<Longrightarrow>
     url q s = url (q \<lparr> dateSincePosted := [] \<rparr>) s"
  "property experienceRange (toLowerCase (experienceLevel q)) = None \<Longrightarrow>
     url q s = url (q \<lparr> experienceLevel := [] \<rparr>) s"
  "property jobTypeRange (toLowerCase (jobType q)) = None \<Longrightarrow>
     url q s = url (q \<lparr> jobType := [] \<rparr>) s"
  "property remoteFilterRange (toLowerCase (remoteFilter q)) = None \<Longrightarrow>
     url q s = url (q \<lparr> remoteFilter := [] \<rparr>) s"
  "property salaryRange (salary q) = None \<Longrightarrow> url q s = url (q \<lparr> salary := [] \<rparr>) s"
  "sortBy q \<noteq> ''recent'' \<Longrightarrow> sortBy q \<noteq> ''relevant'' \<Longrightarrow>
     url q s = url (q \<lparr> sortBy := [] \<rparr>) s"
  by (simp_all add: url_eq_iff getDateSincePosted_def getExperienceLevel_def getJobType_def
      getRemoteFilter_def getSalary_def or_else_def property_def
      dateRange_def experienceRange_def jobTypeRange_def remoteFilterRange_def salaryRange_def
      Object_prototype_def)

text \<open>
  Claim C8, where the source departs from it. The tables are object literals, so a
  lookup also finds what every object inherits. The experience level \<open>constructor\<close>
  is no key of the experience table, and the lookup still returns a value, the
  inherited constructor function: the URL gets a parameter \<open>f_E\<close> holding the text of
  that function, where the claim says that it gets none. The same query without an
  experience level has no such parameter.
\<close>

theorem url_parameter_for_inherited_property:
  "map_of experienceRange (toLowerCase ''constructor'') = None
   \<and> url (Query_constructor (emptyQueryObject \<lparr> qo_experienceLevel := Some ''constructor'' \<rparr>)) 0
     = ''https://www.linkedin.com/jobs-guest/jobs/api/seeMoreJobPostings/search?f_E=function+Object%28%29+%7B+%5Bnative+code%5D+%7D&start=0''
   \<and> url (Query_constructor emptyQueryObject) 0
     = ''https://www.linkedin.com/jobs-guest/jobs/api/seeMoreJobPostings/search?start=0''"
  by code_simp

end
